theory Spec2Isabelle
  imports Complex_Main "HOL-Library.Word" "HOL-Library.Multiset"
begin

section \<open>Request headers\<close>

text \<open>
  A request's header set is Go's \<^verbatim>\<open>http.Header\<close>, a \<^verbatim>\<open>map[string][]string\<close>. Strings are
  byte sequences. \<^verbatim>\<open>Header.Get\<close> canonicalises the key it is given
  (\<^verbatim>\<open>textproto.CanonicalMIMEHeaderKey\<close>) and returns the first value stored under it, or the
  empty string when there is none. The server stores incoming headers under their canonical
  keys, which is what \<^verbatim>\<open>Header.Set\<close> does as well.
\<close>

type_synonym Header = "string \<rightharpoonup> string list"

definition isLower :: "char \<Rightarrow> bool" where
  "isLower c = (97 \<le> (of_char c :: nat) \<and> (of_char c :: nat) \<le> 122)"

definition isUpper :: "char \<Rightarrow> bool" where
  "isUpper c = (65 \<le> (of_char c :: nat) \<and> (of_char c :: nat) \<le> 90)"

definition isDigit :: "char \<Rightarrow> bool" where
  "isDigit c = (48 \<le> (of_char c :: nat) \<and> (of_char c :: nat) \<le> 57)"

definition toUpper :: "char \<Rightarrow> char" where
  "toUpper c = (if isLower c then char_of ((of_char c :: nat) - 32) else c)"

definition toLower :: "char \<Rightarrow> char" where
  "toLower c = (if isUpper c then char_of ((of_char c :: nat) + 32) else c)"

text \<open>The token bytes of RFC 7230: letters, digits and \<^verbatim>\<open>!#$%&'*+-.^_`|~\<close>.\<close>

definition validHeaderFieldByte :: "char \<Rightarrow> bool" where
  "validHeaderFieldByte c =
     (isLower c \<or> isUpper c \<or> isDigit c \<or>
      (of_char c :: nat) \<in> {33, 35, 36, 37, 38, 39, 42, 43, 45, 46, 94, 95, 96, 124, 126})"

text \<open>
  The canonical form: the first letter and every letter after a hyphen in upper case, the
  other letters in lower case. \<open>upper\<close> is the loop's flag.
\<close>

fun canonLoop :: "bool \<Rightarrow> string \<Rightarrow> string" where
  "canonLoop upper [] = []"
| "canonLoop upper (c # cs) =
     (let c' = (if upper then toUpper c else toLower c)
      in c' # canonLoop (c' = CHR ''-'') cs)"

definition CanonicalMIMEHeaderKey :: "string \<Rightarrow> string" where
  "CanonicalMIMEHeaderKey s =
     (if list_all validHeaderFieldByte s then canonLoop True s else s)"

definition Get :: "Header \<Rightarrow> string \<Rightarrow> string" where
  "Get h key =
     (case h (CanonicalMIMEHeaderKey key) of
        None \<Rightarrow> []
      | Some [] \<Rightarrow> []
      | Some (v # _) \<Rightarrow> v)"

definition Set_hdr :: "Header \<Rightarrow> string \<Rightarrow> string \<Rightarrow> Header" where
  "Set_hdr h key v = h(CanonicalMIMEHeaderKey key \<mapsto> [v])"

section \<open>Hop counting\<close>

text \<open>
  The loop \<^verbatim>\<open>count := 1; for _, c := range s { if c == ',' { count++ } }\<close>, with \<open>count'\<close>
  for its counter. The range is over
  the runes of \<open>s\<close>; a comma is one byte and no other rune's encoding contains that byte, so
  the loop is over the bytes. Hop counts are Go \<^verbatim>\<open>int\<close>s, far from their bound (a count is
  at most one more than the length of a header value).
\<close>

fun countCommas :: "int \<Rightarrow> string \<Rightarrow> int" where
  "countCommas count' [] = count'"
| "countCommas count' (c # cs) =
     countCommas (if c = CHR '','' then count' + 1 else count') cs"

definition countProxyHops :: "Header \<Rightarrow> int" where
  "countProxyHops h =
     (let hops = 0;
          xff = Get h ''X-Forwarded-For'';
          hops = (if xff \<noteq> [] then hops + countCommas 1 xff else hops);
          via = Get h ''Via'';
          hops = (if via \<noteq> [] then hops + countCommas 1 via else hops)
      in hops)"

definition countServiceMeshHops :: "Header \<Rightarrow> int" where
  "countServiceMeshHops h =
     (let hops = 0;
          hops = (if Get h ''X-Request-Id'' \<noteq> [] then hops + 1 else hops);
          hops = (if Get h ''X-Envoy-External-Address'' \<noteq> [] then hops + 1 else hops);
          hops = (if Get h ''X-Envoy-Decorator-Operation'' \<noteq> [] then hops + 1 else hops);
          hops = (if Get h ''X-B3-TraceId'' \<noteq> [] then hops + 1 else hops);
          hops = (if Get h ''X-B3-SpanId'' \<noteq> [] then hops + 1 else hops)
      in hops)"

definition countTotalHops :: "Header \<Rightarrow> int" where
  "countTotalHops h = countProxyHops h + countServiceMeshHops h"

definition hasIstioHeaders :: "Header \<Rightarrow> bool" where
  "hasIstioHeaders h =
     (if Get h ''X-B3-TraceId'' \<noteq> [] then True
      else if Get h ''X-Envoy-Decorator-Operation'' \<noteq> [] then True
      else if Get h ''X-Request-Id'' \<noteq> [] then True
      else if Get h ''X-Envoy-Attempt-Count'' \<noteq> [] \<or> Get h ''X-Envoy-Internal'' \<noteq> [] then True
      else False)"

section \<open>Numbers and errors\<close>

text \<open>
  The \<^verbatim>\<open>atomic.Int64\<close> counters are 64-bit words read as signed numbers, so that
  \<^verbatim>\<open>Add(1)\<close> wraps as it does in Go. A run-time panic of the source is a value of
  \<open>error\<close>.
\<close>

type_synonym float64 = real
type_synonym int64 = "64 word"
type_synonym uint64 = "64 word"
type_synonym uint32 = "32 word"

datatype error = IndexOutOfRange | SliceBoundsOutOfRange

subsection \<open>Arithmetic in \<^verbatim>\<open>float64\<close>\<close>

text \<open>
  A \<^verbatim>\<open>float64\<close> is modelled by the real number it stands for. The finite \<^verbatim>\<open>float64\<close>
  numbers are \<open>m * 2^e\<close> with \<open>\<bar>m\<bar> < 2^53\<close> and \<open>- 1074 \<le> e \<le> 971\<close>, and an operation of Go on
  \<^verbatim>\<open>float64\<close> (a product, a quotient, a sum, the conversion of an integer) gives the
  \<^verbatim>\<open>float64\<close> nearest to the exact result, of two nearest ones the one with the even
  \<open>m\<close>. \<open>fl\<close> is this rounding: \<open>bits n\<close> is the number of binary digits of \<open>n\<close>,
  \<open>binexp x\<close> is the \<open>b\<close> with \<open>2^(b - 1) \<le> x < 2^b\<close>, the spacing of the \<^verbatim>\<open>float64\<close>
  numbers around \<open>x\<close> is \<open>2^(b - 53)\<close> and never less than \<open>2^(- 1074)\<close>, and \<open>rne\<close>
  rounds to the nearest integer, halves to the even one. A result beyond the largest
  \<^verbatim>\<open>float64\<close>, the infinities and NaN are outside the model.
\<close>

function bits :: "int \<Rightarrow> int" where
  "bits n = (if n \<le> 0 then 0 else bits (n div 2) + 1)"
  by pat_completeness auto
termination by (relation "measure nat") auto

declare bits.simps [simp del]

definition rne :: "real \<Rightarrow> int" where
  "rne x = (let n = \<lfloor>x\<rfloor>; d = x - of_int n
            in if d < 1 / 2 then n else if 1 / 2 < d then n + 1 else if even n then n else n + 1)"

definition binexp :: "real \<Rightarrow> int" where
  "binexp x = (if 1 \<le> x then bits \<lfloor>x\<rfloor> else 1 - bits (\<lceil>1 / x\<rceil> - 1))"

definition pow2 :: "int \<Rightarrow> real" where
  "pow2 e = (if 0 \<le> e then 2 ^ nat e else 1 / 2 ^ nat (- e))"

definition fl :: "real \<Rightarrow> float64" where
  "fl x = (if x = 0 then 0
           else (let e = max (binexp \<bar>x\<bar> - 53) (- 1074)
                 in sgn x * (of_int (rne (\<bar>x\<bar> / pow2 e)) * pow2 e)))"

text \<open>\<^verbatim>\<open>x * y\<close>, \<^verbatim>\<open>x / y\<close>, \<^verbatim>\<open>x + y\<close> and \<^verbatim>\<open>float64(n)\<close>.\<close>

definition fmul :: "float64 \<Rightarrow> float64 \<Rightarrow> float64" where
  "fmul x y = fl (x * y)"

definition fdiv :: "float64 \<Rightarrow> float64 \<Rightarrow> float64" where
  "fdiv x y = fl (x / y)"

definition fadd :: "float64 \<Rightarrow> float64 \<Rightarrow> float64" where
  "fadd x y = fl (x + y)"

definition float64_of_int :: "int \<Rightarrow> float64" where
  "float64_of_int n = fl (of_int n)"

text \<open>
  \<^verbatim>\<open>math.Round\<close>: the nearest integer, halves away from zero; \<^verbatim>\<open>math.Ceil\<close>: the least
  integer not below. Both are exact: their result is a \<^verbatim>\<open>float64\<close> whenever their
  argument is.
\<close>

definition math_Round :: "float64 \<Rightarrow> float64" where
  "math_Round x = (if x < 0 then - of_int \<lfloor>- x + 1 / 2\<rfloor> else of_int \<lfloor>x + 1 / 2\<rfloor>)"

definition math_Ceil :: "float64 \<Rightarrow> float64" where
  "math_Ceil x = of_int \<lceil>x\<rceil>"

text \<open>\<^verbatim>\<open>round\<close>: the product and the quotient are \<^verbatim>\<open>float64\<close> operations.\<close>

definition round_go :: "float64 \<Rightarrow> float64" where
  "round_go val = fdiv (math_Round (fmul val 100)) 100"

section \<open>The percentile of a slice\<close>

text \<open>
  \<^verbatim>\<open>percentile\<close> receives a slice and sorts a copy of it. Whether the caller's data
  survives depends on which array is sorted, so arrays live in a heap: a list of arrays,
  an address being an index into it, and a new array is put at the end. A slice is the
  address of its array (every slice here spans its whole array). The product under
  \<^verbatim>\<open>math.Ceil\<close> is taken exactly here; the next subsection gives the index as \<^verbatim>\<open>float64\<close>
  arithmetic computes it.
\<close>

type_synonym heap = "float64 list list"

definition alloc :: "heap \<Rightarrow> float64 list \<Rightarrow> nat \<times> heap" where
  "alloc h xs = (length h, h @ [xs])"

text \<open>\<^verbatim>\<open>sort.Float64s(a)\<close> sorts the array at \<open>a\<close> in place, ascending.\<close>

definition sort_Float64s :: "heap \<Rightarrow> nat \<Rightarrow> heap" where
  "sort_Float64s h a = h[a := sort (h ! a)]"

definition percentile :: "heap \<Rightarrow> nat \<Rightarrow> float64 \<Rightarrow> (error + float64) \<times> heap" where
  "percentile h data p =
     (let (copyData, h) = alloc h ([] @ h ! data);
          h = sort_Float64s h copyData;
          idx = \<lfloor>math_Ceil (p * real (length (h ! copyData)))\<rfloor> - 1
      in if 0 \<le> idx \<and> idx < int (length (h ! copyData))
         then (Inr (h ! copyData ! nat idx), h)
         else (Inl IndexOutOfRange, h))"

subsection \<open>The index in \<^verbatim>\<open>float64\<close> arithmetic\<close>

text \<open>
  \<^verbatim>\<open>percentile\<close> computes its index in \<^verbatim>\<open>float64\<close>: the product \<^verbatim>\<open>p*float64(len)\<close> is
  rounded to 53 significant bits, ties to even, before \<^verbatim>\<open>math.Ceil\<close>. The four quantiles
  are the \<^verbatim>\<open>float64\<close> values \<open>m / 2^53\<close> nearest to their decimals, and a length below
  \<open>2^53\<close> converts exactly, so the product before rounding is \<open>m * len / 2^53\<close>.
  \<open>bitLen\<close> is the number of binary digits of a number, \<open>round53\<close> rounds a natural
  number to 53 significant bits (\<open>round53 M / 2^53\<close> is \<open>fl (M / 2^53)\<close>), and
  \<open>float64_index m len\<close> is the index the code computes for the quantile \<open>m / 2^53\<close>.
\<close>

fun bitLen :: "nat \<Rightarrow> nat" where
  "bitLen n = (if n = 0 then 0 else Suc (bitLen (n div 2)))"

declare bitLen.simps [simp del]

definition round53 :: "nat \<Rightarrow> nat" where
  "round53 M =
     (if bitLen M \<le> 53 then M
      else (let s = bitLen M - 53; q = M div 2 ^ s; r = M mod 2 ^ s; half = 2 ^ (s - 1)
            in (if half < r \<or> (r = half \<and> odd q) then q + 1 else q) * 2 ^ s))"

definition float64_index :: "nat \<Rightarrow> nat \<Rightarrow> int" where
  "float64_index m len = int ((round53 (m * len) + (2 ^ 53 - 1)) div 2 ^ 53) - 1"

text \<open>The significands of 0.50, 0.95, 0.99 and 0.999.\<close>

definition sig_p50 :: nat where "sig_p50 = 4503599627370496"
definition sig_p95 :: nat where "sig_p95 = 8556839292003942"
definition sig_p99 :: nat where "sig_p99 = 8917127262193582"
definition sig_p999 :: nat where "sig_p999 = 8998192055486251"

text \<open>The quantiles that \<^verbatim>\<open>statsHandler\<close> asks for, each with its significand.\<close>

definition quantiles :: "(float64 \<times> nat) list" where
  "quantiles =
     [(50 / 100, sig_p50), (95 / 100, sig_p95), (99 / 100, sig_p99), (999 / 1000, sig_p999)]"

section \<open>The statistics record\<close>

record Stats =
  Requests :: int64
  Errors :: int64
  RequestsPerSecond :: float64
  SuccessRate :: float64
  AvgLatency :: float64
  P50Latency :: float64
  P95Latency :: float64
  P99Latency :: float64
  P999Latency :: float64
  MinLatency :: float64
  MaxLatency :: float64
  MemoryHeapMB :: float64
  MemorySysMB :: float64
  MemoryTotalMB :: float64
  Goroutines :: int
  GCPauseMs :: float64
  NumGC :: uint32
  UptimeSeconds :: int64
  CurrentHopCount :: int
  ProxyHopCount :: int
  ServiceMeshHops :: int
  TotalHopCount :: int
  AvgProxyHops :: float64
  ProxyDetected :: bool
  IstioSidecar :: bool
  RequestsViaProxy :: int64
  DebugHeaders :: "string \<rightharpoonup> string"
  Hostname :: string
  OS :: string
  Architecture :: string
  NumCPU :: int
  KernelVersion :: string
  TotalMemoryMB :: float64
  AvailableMemoryMB :: float64
  TotalDiskGB :: float64
  AvailableDiskGB :: float64
  DiskUsagePercent :: float64

section \<open>Host facts\<close>

text \<open>
  What the operating system answers is an input: the lines of \<^verbatim>\<open>/proc/meminfo\<close> (\<open>None\<close>
  when the file cannot be opened), the result of \<^verbatim>\<open>statfs("/")\<close>, the host name, the output
  of \<^verbatim>\<open>uname -a\<close>, the memory statistics of the runtime (\<open>PauseNs\<close> has 256 entries).
  \<^verbatim>\<open>strconv.ParseFloat\<close> is an input as well: a function that gives the number a field
  denotes, or \<open>None\<close> for its error.
\<close>

definition isSpace :: "char \<Rightarrow> bool" where
  "isSpace c = ((of_char c :: nat) \<in> {9, 10, 11, 12, 13, 32})"

fun FieldsFrom :: "string \<Rightarrow> string \<Rightarrow> string list" where
  "FieldsFrom cur [] = (if cur = [] then [] else [cur])"
| "FieldsFrom cur (c # cs) =
     (if isSpace c then (if cur = [] then FieldsFrom [] cs else cur # FieldsFrom [] cs)
      else FieldsFrom (cur @ [c]) cs)"

definition Fields :: "string \<Rightarrow> string list" where
  "Fields s = FieldsFrom [] s"

definition HasPrefix :: "string \<Rightarrow> string \<Rightarrow> bool" where
  "HasPrefix s pre = (take (length pre) s = pre)"

definition TrimSpace :: "string \<Rightarrow> string" where
  "TrimSpace s = rev (dropWhile isSpace (rev (dropWhile isSpace s)))"

text \<open>
  The scanning loop of \<^verbatim>\<open>getTotalMemoryMB\<close> and \<^verbatim>\<open>getAvailableMemoryMB\<close>, which differ in
  the prefix they look for.
\<close>

fun scanMeminfo :: "string \<Rightarrow> (string \<Rightarrow> float64 option) \<Rightarrow> string list \<Rightarrow> float64" where
  "scanMeminfo pre ParseFloat [] = 0"
| "scanMeminfo pre ParseFloat (line # rest) =
     (if HasPrefix line pre then
        (let fields = Fields line in
         if length fields \<ge> 2 then
           (case ParseFloat (fields ! 1) of
              Some kb \<Rightarrow> round_go (fdiv kb 1024)
            | None \<Rightarrow> scanMeminfo pre ParseFloat rest)
         else scanMeminfo pre ParseFloat rest)
      else scanMeminfo pre ParseFloat rest)"

definition getTotalMemoryMB :: "(string \<Rightarrow> float64 option) \<Rightarrow> string list option \<Rightarrow> float64" where
  "getTotalMemoryMB ParseFloat file =
     (case file of None \<Rightarrow> 0 | Some ls \<Rightarrow> scanMeminfo ''MemTotal:'' ParseFloat ls)"

definition getAvailableMemoryMB :: "(string \<Rightarrow> float64 option) \<Rightarrow> string list option \<Rightarrow> float64" where
  "getAvailableMemoryMB ParseFloat file =
     (case file of None \<Rightarrow> 0 | Some ls \<Rightarrow> scanMeminfo ''MemAvailable:'' ParseFloat ls)"

record Statfs_t =
  Blocks :: uint64
  Bavail :: uint64
  Bsize :: int64

definition getDiskStats :: "Statfs_t option \<Rightarrow> float64 \<times> float64 \<times> float64" where
  "getDiskStats st =
     (case st of
        None \<Rightarrow> (0, 0, 0)
      | Some stat \<Rightarrow>
          (let totalBytes = Blocks stat * Bsize stat;
               availBytes = Bavail stat * Bsize stat;
               totalGB = round_go (fdiv (fdiv (fdiv (float64_of_int (uint totalBytes)) 1024) 1024) 1024);
               availableGB = round_go (fdiv (fdiv (fdiv (float64_of_int (uint availBytes)) 1024) 1024) 1024);
               usagePercent =
                 (if totalGB > 0
                  then round_go (fmul (fdiv (float64_of_int (uint (totalBytes - availBytes)))
                                            (float64_of_int (uint totalBytes))) 100)
                  else 0)
           in (totalGB, availableGB, usagePercent)))"

definition getSystemInfo :: "string \<Rightarrow> string option \<Rightarrow> string \<times> string" where
  "getSystemInfo os_Hostname uname =
     (let hostname = (if os_Hostname = [] then ''unknown'' else os_Hostname);
          kernelVersion = (case uname of None \<Rightarrow> [] | Some out \<Rightarrow> TrimSpace out);
          kernelVersion = (if kernelVersion = [] then ''unknown'' else kernelVersion)
      in (hostname, kernelVersion))"

record MemStats =
  Alloc :: uint64
  TotalAlloc :: uint64
  Sys :: uint64
  PauseNs :: "uint64 list"
  MemNumGC :: uint32

record host =
  uptime :: float64
  memStats :: MemStats
  NumGoroutine :: int
  GOOS :: string
  GOARCH :: string
  runtime_NumCPU :: int
  os_Hostname :: string
  uname :: "string option"
  ParseFloat :: "string \<Rightarrow> float64 option"
  meminfo :: "string list option"
  statfs :: "Statfs_t option"

section \<open>Computing the statistics\<close>

definition headersToCheck :: "string list" where
  "headersToCheck =
     [''X-Forwarded-For'', ''Via'', ''X-Envoy-External-Address'', ''X-Envoy-Decorator-Operation'',
      ''X-B3-TraceId'', ''X-B3-SpanId'', ''X-Request-Id'', ''X-Real-IP'']"

definition collectDebugHeaders :: "Header \<Rightarrow> string \<rightharpoonup> string" where
  "collectDebugHeaders r =
     foldl (\<lambda>debugHeaders hdr. let val = Get r hdr in
              if val \<noteq> [] then debugHeaders(hdr \<mapsto> val) else debugHeaders)
       Map.empty headersToCheck"

text \<open>\<^verbatim>\<open>int64(f)\<close> truncates towards zero.\<close>

definition int64_of_float :: "float64 \<Rightarrow> int64" where
  "int64_of_float f = word_of_int (if f < 0 then \<lceil>f\<rceil> else \<lfloor>f\<rfloor>)"

text \<open>The loop over the snapshot that finds the sum, the least and the greatest latency.\<close>

definition latencyLoop :: "float64 list \<Rightarrow> float64 \<times> float64 \<times> float64" where
  "latencyLoop latenciesCopy =
     foldl (\<lambda>(sum, minLat, maxLat) l.
              (fadd sum l, (if l < minLat then l else minLat), (if l > maxLat then l else maxLat)))
       (0, latenciesCopy ! 0, latenciesCopy ! 0) latenciesCopy"

text \<open>
  The part of \<^verbatim>\<open>statsHandler\<close> that follows the reads of shared state: from the two
  copies, the three counter values, the request's headers, the sidecar signal and the host
  facts to the record that is encoded. The snapshot is the array at address 0 of a heap of
  its own. A panic of \<^verbatim>\<open>percentile\<close> ends the handler with no record.
\<close>

definition statsHandler_result ::
  "float64 list \<Rightarrow> int list \<Rightarrow> int64 \<Rightarrow> int64 \<Rightarrow> int64 \<Rightarrow> Header \<Rightarrow> bool \<Rightarrow> host \<Rightarrow> error + Stats" where
  "statsHandler_result latenciesCopy proxyHopsCopy totalRequests totalErrors totalViaProxy r
      istioDetected env =
     (let proxyHops = countProxyHops r;
          meshHops = countServiceMeshHops r;
          totalHops = proxyHops + meshHops;
          currentHops = totalHops;
          proxyDetected = (totalHops > 0);
          debugHeaders = collectDebugHeaders r;
          avgHops = (if length proxyHopsCopy > 0
                     then round_go (fdiv (float64_of_int (foldl (+) 0 proxyHopsCopy))
                                         (float64_of_int (int (length proxyHopsCopy))))
                     else 0);
          (hostname, kernelVersion) = getSystemInfo (os_Hostname env) (uname env);
          totalMemMB = getTotalMemoryMB (ParseFloat env) (meminfo env);
          availMemMB = getAvailableMemoryMB (ParseFloat env) (meminfo env);
          (totalDiskGB, availDiskGB, diskUsagePercent) = getDiskStats (statfs env);
          m = memStats env;
          stats = \<lparr> Requests = totalRequests,
                    Errors = totalErrors,
                    RequestsPerSecond = round_go (fdiv (float64_of_int (sint totalRequests)) (uptime env)),
                    SuccessRate = 100,
                    AvgLatency = 0, P50Latency = 0, P95Latency = 0, P99Latency = 0,
                    P999Latency = 0, MinLatency = 0, MaxLatency = 0,
                    MemoryHeapMB = round_go (fdiv (fdiv (float64_of_int (uint (Alloc m))) 1024) 1024),
                    MemorySysMB = round_go (fdiv (fdiv (float64_of_int (uint (Sys m))) 1024) 1024),
                    MemoryTotalMB = round_go (fdiv (fdiv (float64_of_int (uint (TotalAlloc m))) 1024) 1024),
                    Goroutines = NumGoroutine env,
                    GCPauseMs = round_go (fdiv (float64_of_int
                                                  (uint (PauseNs m ! unat ((MemNumGC m + 255) mod 256))))
                                               1000000),
                    NumGC = MemNumGC m,
                    UptimeSeconds = int64_of_float (uptime env),
                    CurrentHopCount = currentHops,
                    ProxyHopCount = proxyHops,
                    ServiceMeshHops = meshHops,
                    TotalHopCount = totalHops,
                    AvgProxyHops = avgHops,
                    ProxyDetected = proxyDetected,
                    IstioSidecar = istioDetected,
                    RequestsViaProxy = totalViaProxy,
                    DebugHeaders = debugHeaders,
                    Hostname = hostname,
                    OS = GOOS env,
                    Architecture = GOARCH env,
                    NumCPU = runtime_NumCPU env,
                    KernelVersion = kernelVersion,
                    TotalMemoryMB = totalMemMB,
                    AvailableMemoryMB = availMemMB,
                    TotalDiskGB = totalDiskGB,
                    AvailableDiskGB = availDiskGB,
                    DiskUsagePercent = diskUsagePercent \<rparr>
      in if length latenciesCopy = 0 then
           Inr (if 0 <s totalRequests
                then stats\<lparr> SuccessRate :=
                       round_go (fmul (fdiv (float64_of_int (sint (totalRequests - totalErrors)))
                                            (float64_of_int (sint totalRequests))) 100) \<rparr>
                else stats)
         else
           (let (sum, minLat, maxLat) = latencyLoop latenciesCopy;
                h = [latenciesCopy]
            in case percentile h 0 (50 / 100) of (Inl e, h) \<Rightarrow> Inl e | (Inr p50, h) \<Rightarrow>
               (case percentile h 0 (95 / 100) of (Inl e, h) \<Rightarrow> Inl e | (Inr p95, h) \<Rightarrow>
               (case percentile h 0 (99 / 100) of (Inl e, h) \<Rightarrow> Inl e | (Inr p99, h) \<Rightarrow>
               (case percentile h 0 (999 / 1000) of (Inl e, h) \<Rightarrow> Inl e | (Inr p999, h) \<Rightarrow>
               (let successRate =
                      (if 0 <s totalRequests
                       then fmul (fdiv (float64_of_int (sint (totalRequests - totalErrors)))
                                       (float64_of_int (sint totalRequests))) 100
                       else 100)
                in Inr (stats\<lparr> SuccessRate := round_go successRate,
                                AvgLatency := round_go (fdiv sum (float64_of_int (int (length latenciesCopy)))),
                                P50Latency := round_go p50,
                                P95Latency := round_go p95,
                                P99Latency := round_go p99,
                                P999Latency := round_go p999,
                                MinLatency := round_go minLat,
                                MaxLatency := round_go maxLat \<rparr>)))))))"

section \<open>Shared state\<close>

text \<open>
  The package-level variables. \<open>mu_w\<close> says that \<^verbatim>\<open>mu\<close> is held for writing, \<open>mu_r\<close>
  counts the goroutines that hold it for reading. A \<^verbatim>\<open>time.Time\<close> is the zero time or a
  reading of the clock in nanoseconds; a \<^verbatim>\<open>time.Duration\<close> is a number of nanoseconds.
\<close>

datatype Time = ZeroTime | At int

record shared =
  latencies :: "float64 list"
  proxyHops :: "int list"
  requests :: int64
  errors :: int64
  requestsViaProxy :: int64
  mu_w :: bool
  mu_r :: nat
  istioPresentCached :: bool
  istioLastChecked :: Time

text \<open>\<^verbatim>\<open>main\<close>: both slices empty; every other variable has its zero value.\<close>

definition main_init :: shared where
  "main_init = \<lparr> latencies = [], proxyHops = [], requests = 0, errors = 0,
                  requestsViaProxy = 0, mu_w = False, mu_r = 0,
                  istioPresentCached = False, istioLastChecked = ZeroTime \<rparr>"

subsection \<open>The statements of \<^verbatim>\<open>handler\<close>\<close>

definition requests_Add :: "shared \<Rightarrow> shared" where
  "requests_Add s = s\<lparr> requests := requests s + 1 \<rparr>"

definition requestsViaProxy_Add :: "shared \<Rightarrow> shared" where
  "requestsViaProxy_Add s = s\<lparr> requestsViaProxy := requestsViaProxy s + 1 \<rparr>"

definition append_latencies :: "float64 \<Rightarrow> shared \<Rightarrow> shared" where
  "append_latencies lat s = s\<lparr> latencies := latencies s @ [lat] \<rparr>"

definition append_proxyHops :: "int \<Rightarrow> shared \<Rightarrow> shared" where
  "append_proxyHops hops s = s\<lparr> proxyHops := proxyHops s @ [hops] \<rparr>"

text \<open>\<^verbatim>\<open>x = x[1:]\<close> panics on an empty slice.\<close>

definition slice_latencies :: "shared \<Rightarrow> error + shared" where
  "slice_latencies s =
     (case latencies s of [] \<Rightarrow> Inl SliceBoundsOutOfRange | _ # rest \<Rightarrow> Inr (s\<lparr> latencies := rest \<rparr>))"

definition slice_proxyHops :: "shared \<Rightarrow> error + shared" where
  "slice_proxyHops s =
     (case proxyHops s of [] \<Rightarrow> Inl SliceBoundsOutOfRange | _ # rest \<Rightarrow> Inr (s\<lparr> proxyHops := rest \<rparr>))"

text \<open>
  \<^verbatim>\<open>handler\<close> run alone, from its first statement to its last. The latency is the number
  of milliseconds the clock gives for the request, as a \<^verbatim>\<open>float64\<close>: a duration is a
  64-bit count of nanoseconds, so its milliseconds are below \<open>2^53\<close> and the conversion is
  exact. \<^verbatim>\<open>Lock\<close> and \<^verbatim>\<open>Unlock\<close> bracket the last five statements and leave the mutex as
  they found it.
\<close>

definition handler :: "Header \<Rightarrow> int \<Rightarrow> shared \<Rightarrow> error + shared" where
  "handler r elapsed_ms s =
     (let hops = countTotalHops r;
          lat = real_of_int elapsed_ms;
          s = requests_Add s;
          s = (if hops > 0 then requestsViaProxy_Add s else s);
          s = append_latencies lat s;
          s = append_proxyHops hops s
      in if length (latencies s) > 1000
         then (case slice_latencies s of Inl e \<Rightarrow> Inl e | Inr s \<Rightarrow> slice_proxyHops s)
         else Inr s)"

text \<open>A sequence of requests, served one after the other.\<close>

fun handlers :: "(Header \<times> int) list \<Rightarrow> shared \<Rightarrow> error + shared" where
  "handlers [] s = Inr s"
| "handlers ((r, elapsed_ms) # rest) s =
     (case handler r elapsed_ms s of Inl e \<Rightarrow> Inl e | Inr s \<Rightarrow> handlers rest s)"

subsection \<open>The sidecar probe\<close>

definition Second :: int where
  "Second = 1000000000"

definition maxDuration :: int where
  "maxDuration = 2 ^ 63 - 1"

definition minDuration :: int where
  "minDuration = - (2 ^ 63)"

text \<open>
  \<^verbatim>\<open>time.Since(t)\<close> when the clock reads \<open>now\<close>. The difference saturates at the bounds of
  a duration; from the zero time, which lies some two thousand years back, it is the
  greatest duration.
\<close>

definition time_Since :: "int \<Rightarrow> Time \<Rightarrow> int" where
  "time_Since now t =
     (case t of ZeroTime \<Rightarrow> maxDuration
      | At t0 \<Rightarrow> max minDuration (min maxDuration (now - t0)))"

text \<open>What \<^verbatim>\<open>net.DialTimeout\<close> answers: a connection, or one of its errors.\<close>

datatype dial = Connected | Refused | TimedOut | Unreachable

definition probeEnvoyAdmin :: "dial \<Rightarrow> bool" where
  "probeEnvoyAdmin d = (case d of Connected \<Rightarrow> True | _ \<Rightarrow> False)"

definition istio_read :: "int \<Rightarrow> shared \<Rightarrow> bool \<times> bool" where
  "istio_read now s = (time_Since now (istioLastChecked s) < 30 * Second, istioPresentCached s)"

definition istio_write :: "bool \<Rightarrow> int \<Rightarrow> shared \<Rightarrow> shared" where
  "istio_write present now s = s\<lparr> istioPresentCached := present, istioLastChecked := At now \<rparr>"

text \<open>
  \<^verbatim>\<open>istioSidecarPresent\<close> run alone. \<open>now\<close> is the clock at the check, \<open>d\<close> what a dial
  would answer, \<open>now'\<close> the clock when the result is stored. The third component lists the
  addresses dialled.
\<close>

definition istioSidecarPresent ::
  "int \<Rightarrow> dial \<Rightarrow> int \<Rightarrow> shared \<Rightarrow> bool \<times> shared \<times> string list" where
  "istioSidecarPresent now d now' s =
     (let (recent, cached) = istio_read now s
      in if recent then (cached, s, [])
         else (let present = probeEnvoyAdmin d;
                   s = istio_write present now' s
               in (present, s, [''127.0.0.1:15000''])))"

section \<open>Goroutines\<close>

text \<open>
  The server runs one goroutine for each request; the scheduler interleaves their
  statements. Every access to a shared variable is atomic or under the variable's mutex, so
  the program has no data race and its executions are the interleavings of the goroutines'
  steps. A goroutine is a program counter with its local variables. One step runs one
  statement that touches shared state; what a goroutine computes on its own between two such
  statements goes with the step before. \<^verbatim>\<open>Lock\<close> waits until nobody holds \<^verbatim>\<open>mu\<close>,
  \<^verbatim>\<open>RLock\<close> until nobody holds it for writing: a step that has to wait is not enabled.
\<close>

datatype hpc =
  H_requests_Add | H_requestsViaProxy_Add | H_Lock | H_append_latencies | H_append_proxyHops
| H_len | H_slice_latencies | H_slice_proxyHops | H_Unlock | H_done | H_panic error

text \<open>A handler's locals are \<open>hops\<close> and \<open>lat\<close>. The result is the new shared state and
  the next program counter, \<open>None\<close> when the step is not enabled.\<close>

fun handler_step :: "hpc \<Rightarrow> int \<Rightarrow> float64 \<Rightarrow> shared \<Rightarrow> (shared \<times> hpc) option" where
  "handler_step H_requests_Add hops lat s = Some (requests_Add s, H_requestsViaProxy_Add)"
| "handler_step H_requestsViaProxy_Add hops lat s =
     Some (if hops > 0 then requestsViaProxy_Add s else s, H_Lock)"
| "handler_step H_Lock hops lat s =
     (if \<not> mu_w s \<and> mu_r s = 0 then Some (s\<lparr> mu_w := True \<rparr>, H_append_latencies) else None)"
| "handler_step H_append_latencies hops lat s = Some (append_latencies lat s, H_append_proxyHops)"
| "handler_step H_append_proxyHops hops lat s = Some (append_proxyHops hops s, H_len)"
| "handler_step H_len hops lat s =
     Some (s, if length (latencies s) > 1000 then H_slice_latencies else H_Unlock)"
| "handler_step H_slice_latencies hops lat s =
     (case slice_latencies s of Inl e \<Rightarrow> Some (s, H_panic e) | Inr s' \<Rightarrow> Some (s', H_slice_proxyHops))"
| "handler_step H_slice_proxyHops hops lat s =
     (case slice_proxyHops s of Inl e \<Rightarrow> Some (s, H_panic e) | Inr s' \<Rightarrow> Some (s', H_Unlock))"
| "handler_step H_Unlock hops lat s = Some (s\<lparr> mu_w := False \<rparr>, H_done)"
| "handler_step H_done hops lat s = None"
| "handler_step (H_panic e) hops lat s = None"

datatype spc =
  S_RLock | S_make_latenciesCopy | S_make_proxyHopsCopy | S_copy_latencies | S_copy_proxyHops
| S_RUnlock | S_requests_Load | S_errors_Load | S_requestsViaProxy_Load
| S_istio_read | S_probe | S_istio_write | S_encode | S_done

text \<open>
  What a stats request brings: its headers, the host's answers, and for the sidecar probe
  the clock at the check, the answer of a dial and the clock at the store.
\<close>

record stats_in =
  req :: Header
  env :: host
  check_now :: int
  dial_answer :: dial
  store_now :: int

record stats_locals =
  latenciesCopy :: "float64 list"
  proxyHopsCopy :: "int list"
  totalRequests :: int64
  totalErrors :: int64
  totalViaProxy :: int64
  present :: bool
  istioDetected :: bool
  dialled :: "string list"
  response :: "(error + Stats) option"

definition stats_locals_init :: stats_locals where
  "stats_locals_init =
     \<lparr> latenciesCopy = [], proxyHopsCopy = [], totalRequests = 0, totalErrors = 0,
       totalViaProxy = 0, present = False, istioDetected = False, dialled = [],
       response = None \<rparr>"

text \<open>\<^verbatim>\<open>copy(dst, src)\<close> copies as many elements as the shorter of the two has.\<close>

definition copy_go :: "'a list \<Rightarrow> 'a list \<Rightarrow> 'a list" where
  "copy_go dst src = take (min (length dst) (length src)) src @ drop (min (length dst) (length src)) dst"

text \<open>
  The two sections of \<^verbatim>\<open>istioSidecarPresent\<close> under \<^verbatim>\<open>istioDetectMu\<close> are one step each:
  a section reads or writes both variables, and the mutex keeps the sections apart.
\<close>

fun stats_step :: "spc \<Rightarrow> stats_in \<Rightarrow> stats_locals \<Rightarrow> shared \<Rightarrow> (shared \<times> spc \<times> stats_locals) option" where
  "stats_step S_RLock i l s =
     (if \<not> mu_w s then Some (s\<lparr> mu_r := mu_r s + 1 \<rparr>, S_make_latenciesCopy, l) else None)"
| "stats_step S_make_latenciesCopy i l s =
     Some (s, S_make_proxyHopsCopy, l\<lparr> latenciesCopy := replicate (length (latencies s)) 0 \<rparr>)"
| "stats_step S_make_proxyHopsCopy i l s =
     Some (s, S_copy_latencies, l\<lparr> proxyHopsCopy := replicate (length (proxyHops s)) 0 \<rparr>)"
| "stats_step S_copy_latencies i l s =
     Some (s, S_copy_proxyHops, l\<lparr> latenciesCopy := copy_go (latenciesCopy l) (latencies s) \<rparr>)"
| "stats_step S_copy_proxyHops i l s =
     Some (s, S_RUnlock, l\<lparr> proxyHopsCopy := copy_go (proxyHopsCopy l) (proxyHops s) \<rparr>)"
| "stats_step S_RUnlock i l s = Some (s\<lparr> mu_r := mu_r s - 1 \<rparr>, S_requests_Load, l)"
| "stats_step S_requests_Load i l s = Some (s, S_errors_Load, l\<lparr> totalRequests := requests s \<rparr>)"
| "stats_step S_errors_Load i l s =
     Some (s, S_requestsViaProxy_Load, l\<lparr> totalErrors := errors s \<rparr>)"
| "stats_step S_requestsViaProxy_Load i l s =
     Some (s, S_istio_read, l\<lparr> totalViaProxy := requestsViaProxy s \<rparr>)"
| "stats_step S_istio_read i l s =
     (if hasIstioHeaders (req i) then Some (s, S_encode, l\<lparr> istioDetected := True \<rparr>)
      else (let (recent, cached) = istio_read (check_now i) s
            in if recent then Some (s, S_encode, l\<lparr> istioDetected := cached \<rparr>)
               else Some (s, S_probe, l)))"
| "stats_step S_probe i l s =
     Some (s, S_istio_write,
           l\<lparr> present := probeEnvoyAdmin (dial_answer i), dialled := dialled l @ [''127.0.0.1:15000''] \<rparr>)"
| "stats_step S_istio_write i l s =
     Some (istio_write (present l) (store_now i) s, S_encode, l\<lparr> istioDetected := present l \<rparr>)"
| "stats_step S_encode i l s =
     Some (s, S_done,
           l\<lparr> response := Some (statsHandler_result (latenciesCopy l) (proxyHopsCopy l)
               (totalRequests l) (totalErrors l) (totalViaProxy l) (req i) (istioDetected l) (env i)) \<rparr>)"
| "stats_step S_done i l s = None"

text \<open>\<^verbatim>\<open>debugHeadersHandler\<close> reads no shared state: it answers in one step.\<close>

record debug_response =
  headers :: Header
  proxy_hop_count :: int
  mesh_hop_count :: int
  total_hop_count :: int
  hop_count :: int
  remote_addr :: string

definition debugHeadersHandler :: "Header \<Rightarrow> string \<Rightarrow> debug_response" where
  "debugHeadersHandler r RemoteAddr =
     (let proxyHops = countProxyHops r;
          meshHops = countServiceMeshHops r;
          totalHops = proxyHops + meshHops
      in \<lparr> headers = r, proxy_hop_count = proxyHops, mesh_hop_count = meshHops,
           total_hop_count = totalHops, hop_count = totalHops, remote_addr = RemoteAddr \<rparr>)"

datatype goroutine =
  HandlerG hpc int float64
| StatsG spc stats_in stats_locals
| DebugG Header string "debug_response option"

record system =
  sh :: shared
  gs :: "goroutine list"

definition system_init :: system where
  "system_init = \<lparr> sh = main_init, gs = [] \<rparr>"

text \<open>
  An event is a request that arrives, which starts a goroutine, or the scheduler's choice
  of a goroutine to run one step. A handler's goroutine starts with \<open>hops\<close> and \<open>lat\<close>
  computed: neither reads shared state. When a stats request is served the clock has moved
  on since \<^verbatim>\<open>main\<close> read it, so its uptime is positive.
\<close>

datatype event =
  Request Header int
| StatsRequest stats_in
| DebugRequest Header string
| Run nat

definition step :: "event \<Rightarrow> system \<Rightarrow> system option" where
  "step e sys =
     (case e of
        Request r elapsed_ms \<Rightarrow>
          Some (sys\<lparr> gs := gs sys @ [HandlerG H_requests_Add (countTotalHops r) (real_of_int elapsed_ms)] \<rparr>)
      | StatsRequest i \<Rightarrow>
          (if 0 < uptime (env i) then Some (sys\<lparr> gs := gs sys @ [StatsG S_RLock i stats_locals_init] \<rparr>)
           else None)
      | DebugRequest r addr \<Rightarrow> Some (sys\<lparr> gs := gs sys @ [DebugG r addr None] \<rparr>)
      | Run k \<Rightarrow>
          (if k < length (gs sys) then
             (case gs sys ! k of
                HandlerG pc hops lat \<Rightarrow>
                  (case handler_step pc hops lat (sh sys) of
                     None \<Rightarrow> None
                   | Some (s', pc') \<Rightarrow> Some \<lparr> sh = s', gs = (gs sys)[k := HandlerG pc' hops lat] \<rparr>)
              | StatsG pc i l \<Rightarrow>
                  (case stats_step pc i l (sh sys) of
                     None \<Rightarrow> None
                   | Some (s', pc', l') \<Rightarrow> Some \<lparr> sh = s', gs = (gs sys)[k := StatsG pc' i l'] \<rparr>)
              | DebugG r addr out \<Rightarrow>
                  (case out of
                     None \<Rightarrow> Some (sys\<lparr> gs := (gs sys)[k := DebugG r addr (Some (debugHeadersHandler r addr))] \<rparr>)
                   | Some _ \<Rightarrow> None))
           else None))"

text \<open>
  The observation a step appends to the store, if it is the step that appends a latency:
  the steps of a schedule, read in order, give the observations in the order of arrival.
\<close>

definition arrival :: "event \<Rightarrow> system \<Rightarrow> (float64 \<times> int) list" where
  "arrival e sys =
     (case e of
        Run k \<Rightarrow>
          (if k < length (gs sys) then
             (case gs sys ! k of
                HandlerG H_append_latencies hops lat \<Rightarrow> [(lat, hops)]
              | _ \<Rightarrow> [])
           else [])
      | _ \<Rightarrow> [])"

text \<open>
  A schedule runs from the left. The result is the state it reaches and the observations
  that arrived, or \<open>None\<close> when one of its steps is not enabled.
\<close>

fun run :: "event list \<Rightarrow> system \<times> (float64 \<times> int) list \<Rightarrow> (system \<times> (float64 \<times> int) list) option" where
  "run [] c = Some c"
| "run (e # es) (sys, seen) =
     (case step e sys of None \<Rightarrow> None | Some sys' \<Rightarrow> run es (sys', seen @ arrival e sys))"

definition reaches :: "event list \<Rightarrow> system \<Rightarrow> (float64 \<times> int) list \<Rightarrow> bool" where
  "reaches es sys seen = (run es (system_init, []) = Some (sys, seen))"

definition lastN :: "nat \<Rightarrow> 'a list \<Rightarrow> 'a list" where
  "lastN n xs = drop (length xs - n) xs"

section \<open>Invariants of the goroutines\<close>

text \<open>A handler between \<^verbatim>\<open>Lock\<close> and \<^verbatim>\<open>Unlock\<close>; a stats request between \<^verbatim>\<open>RLock\<close> and
  \<^verbatim>\<open>RUnlock\<close>.\<close>

fun in_cs :: "goroutine \<Rightarrow> bool" where
  "in_cs (HandlerG pc hops lat) =
     (pc = H_append_latencies \<or> pc = H_append_proxyHops \<or> pc = H_len \<or> pc = H_slice_latencies
      \<or> pc = H_slice_proxyHops \<or> pc = H_Unlock)"
| "in_cs (StatsG pc i l) = False"
| "in_cs (DebugG r addr out) = False"

fun reading :: "goroutine \<Rightarrow> bool" where
  "reading (StatsG pc i l) =
     (pc = S_make_latenciesCopy \<or> pc = S_make_proxyHopsCopy \<or> pc = S_copy_latencies
      \<or> pc = S_copy_proxyHops \<or> pc = S_RUnlock)"
| "reading (HandlerG pc hops lat) = False"
| "reading (DebugG r addr out) = False"

text \<open>
  The mutex does its work: a handler inside its section holds \<^verbatim>\<open>mu\<close> for writing, at most
  one handler is inside, the read count is the number of readers inside, and nobody reads
  while \<^verbatim>\<open>mu\<close> is held for writing.
\<close>

definition inv_mu :: "system \<Rightarrow> bool" where
  "inv_mu sys =
     ((\<forall>j < length (gs sys). in_cs (gs sys ! j) \<longrightarrow> mu_w (sh sys))
      \<and> (\<forall>j < length (gs sys). \<forall>j' < length (gs sys).
            in_cs (gs sys ! j) \<longrightarrow> in_cs (gs sys ! j') \<longrightarrow> j = j')
      \<and> mu_r (sh sys) = length (filter reading (gs sys))
      \<and> (mu_w (sh sys) \<longrightarrow> mu_r (sh sys) = 0))"

text \<open>While \<^verbatim>\<open>mu\<close> is held for writing, a handler is inside its section.\<close>

definition inv_held :: "system \<Rightarrow> bool" where
  "inv_held sys = (mu_w (sh sys) \<longrightarrow> (\<exists>k < length (gs sys). in_cs (gs sys ! k)))"

text \<open>The store holds the last \<open>a\<close> latencies and the last \<open>b\<close> hop counts that arrived.\<close>

definition store_is :: "nat \<Rightarrow> nat \<Rightarrow> (float64 \<times> int) list \<Rightarrow> shared \<Rightarrow> bool" where
  "store_is a b seen s =
     (latencies s = lastN a (map fst seen) \<and> proxyHops s = lastN b (map snd seen))"

text \<open>What the store holds when a handler is about to run the statement at \<open>pc\<close>.\<close>

fun cs_rel :: "hpc \<Rightarrow> int \<Rightarrow> float64 \<Rightarrow> (float64 \<times> int) list \<Rightarrow> shared \<Rightarrow> bool" where
  "cs_rel H_append_latencies hops lat seen s = store_is 1000 1000 seen s"
| "cs_rel H_append_proxyHops hops lat seen s =
     (seen \<noteq> [] \<and> last seen = (lat, hops) \<and> latencies s = lastN 1001 (map fst seen)
      \<and> proxyHops s = lastN 1000 (map snd (butlast seen)))"
| "cs_rel H_len hops lat seen s = store_is 1001 1001 seen s"
| "cs_rel H_slice_latencies hops lat seen s = (store_is 1001 1001 seen s \<and> 1000 < length seen)"
| "cs_rel H_slice_proxyHops hops lat seen s = (store_is 1000 1001 seen s \<and> 1000 < length seen)"
| "cs_rel H_Unlock hops lat seen s = store_is 1000 1000 seen s"
| "cs_rel (H_panic e) hops lat seen s = False"
| "cs_rel H_requests_Add hops lat seen s = True"
| "cs_rel H_requestsViaProxy_Add hops lat seen s = True"
| "cs_rel H_Lock hops lat seen s = True"
| "cs_rel H_done hops lat seen s = True"

text \<open>A snapshot is the store as it was after some number of arrivals.\<close>

definition snapshot_of :: "(float64 \<times> int) list \<Rightarrow> float64 list \<Rightarrow> int list \<Rightarrow> bool" where
  "snapshot_of seen lc hc =
     (\<exists>m \<le> length seen. lc = lastN 1000 (map fst (take m seen))
        \<and> hc = lastN 1000 (map snd (take m seen)))"

text \<open>What a stats request's copies hold when it is about to run the statement at \<open>pc\<close>.\<close>

fun rd_rel :: "spc \<Rightarrow> stats_locals \<Rightarrow> (float64 \<times> int) list \<Rightarrow> shared \<Rightarrow> bool" where
  "rd_rel S_RLock l seen s = True"
| "rd_rel S_make_latenciesCopy l seen s = True"
| "rd_rel S_make_proxyHopsCopy l seen s = (length (latenciesCopy l) = length (latencies s))"
| "rd_rel S_copy_latencies l seen s =
     (length (latenciesCopy l) = length (latencies s)
      \<and> length (proxyHopsCopy l) = length (proxyHops s))"
| "rd_rel S_copy_proxyHops l seen s =
     (latenciesCopy l = latencies s \<and> length (proxyHopsCopy l) = length (proxyHops s))"
| "rd_rel S_RUnlock l seen s = (latenciesCopy l = latencies s \<and> proxyHopsCopy l = proxyHops s)"
| "rd_rel pc l seen s = snapshot_of seen (latenciesCopy l) (proxyHopsCopy l)"

fun g_rel :: "goroutine \<Rightarrow> (float64 \<times> int) list \<Rightarrow> shared \<Rightarrow> bool" where
  "g_rel (HandlerG pc hops lat) seen s = cs_rel pc hops lat seen s"
| "g_rel (StatsG pc i l) seen s = rd_rel pc l seen s"
| "g_rel (DebugG r addr out) seen s = True"

definition inv_store :: "system \<Rightarrow> (float64 \<times> int) list \<Rightarrow> bool" where
  "inv_store sys seen =
     ((\<not> mu_w (sh sys) \<longrightarrow> store_is 1000 1000 seen (sh sys))
      \<and> (\<forall>j < length (gs sys). g_rel (gs sys ! j) seen (sh sys)))"

text \<open>A handler that has added to \<open>requests\<close>; one that has added to
  \<open>requestsViaProxy\<close>.\<close>

fun past_requests_Add :: "goroutine \<Rightarrow> bool" where
  "past_requests_Add (HandlerG pc hops lat) = (pc \<noteq> H_requests_Add)"
| "past_requests_Add (StatsG pc i l) = False"
| "past_requests_Add (DebugG r addr out) = False"

fun past_requestsViaProxy_Add :: "goroutine \<Rightarrow> bool" where
  "past_requestsViaProxy_Add (HandlerG pc hops lat) =
     (pc \<noteq> H_requests_Add \<and> pc \<noteq> H_requestsViaProxy_Add \<and> 0 < hops)"
| "past_requestsViaProxy_Add (StatsG pc i l) = False"
| "past_requestsViaProxy_Add (DebugG r addr out) = False"

fun stats_rel :: "goroutine \<Rightarrow> bool" where
  "stats_rel (StatsG pc i l) =
     (totalErrors l = 0 \<and> 0 < uptime (env i)
      \<and> (pc = S_done \<longrightarrow>
           response l = Some (statsHandler_result (latenciesCopy l) (proxyHopsCopy l)
              (totalRequests l) (totalErrors l) (totalViaProxy l) (req i) (istioDetected l) (env i))))"
| "stats_rel (HandlerG pc hops lat) = True"
| "stats_rel (DebugG r addr out) = True"

definition inv_counters :: "system \<Rightarrow> bool" where
  "inv_counters sys =
     (requests (sh sys) = of_nat (length (filter past_requests_Add (gs sys)))
      \<and> requestsViaProxy (sh sys) = of_nat (length (filter past_requestsViaProxy_Add (gs sys)))
      \<and> errors (sh sys) = 0
      \<and> (\<forall>j < length (gs sys). stats_rel (gs sys ! j)))"

text \<open>
  A stats request that has loaded \<open>requests\<close>, and the value that a load of goroutine
  \<open>k\<close> read: the schedule has a step of \<open>k\<close> taken in a state where \<open>k\<close> was about to
  load, and the value is what \<open>requests\<close> held in that state.
\<close>

definition loaded :: "spc \<Rightarrow> bool" where
  "loaded pc =
     (pc = S_errors_Load \<or> pc = S_requestsViaProxy_Load \<or> pc = S_istio_read \<or> pc = S_probe
      \<or> pc = S_istio_write \<or> pc = S_encode \<or> pc = S_done)"

definition load_of :: "event list \<Rightarrow> nat \<Rightarrow> stats_in \<Rightarrow> int64 \<Rightarrow> bool" where
  "load_of es k i v =
     (\<exists>n sys1 seen1 l1. n < length es \<and> es ! n = Run k \<and> reaches (take n es) sys1 seen1
        \<and> k < length (gs sys1) \<and> gs sys1 ! k = StatsG S_requests_Load i l1
        \<and> v = requests (sh sys1))"

definition inv_loads :: "event list \<Rightarrow> system \<Rightarrow> bool" where
  "inv_loads es sys =
     (\<forall>k < length (gs sys). \<forall>pc i l. gs sys ! k = StatsG pc i l \<longrightarrow> loaded pc \<longrightarrow>
        load_of es k i (totalRequests l))"

section \<open>The words of the specification\<close>

text \<open>
  Rounding half away from zero: \<open>k\<close> is the integer nearest to \<open>x\<close>, and of two
  nearest integers the one of greater magnitude.
\<close>

definition nearest_away :: "real \<Rightarrow> int \<Rightarrow> bool" where
  "nearest_away x k =
     (\<bar>of_int k - x\<bar> < 1 / 2 \<or> (\<bar>of_int k - x\<bar> = 1 / 2 \<and> \<bar>x\<bar> < \<bar>of_int k\<bar>))"


text \<open>The marker headers of a service mesh.\<close>

definition meshMarkers :: "string list" where
  "meshMarkers =
     [''X-Request-Id'', ''X-Envoy-External-Address'', ''X-Envoy-Decorator-Operation'',
      ''X-B3-TraceId'', ''X-B3-SpanId'']"

section \<open>Inputs for the examples\<close>

definition quiet_host :: host where
  "quiet_host =
     \<lparr> uptime = 2,
       memStats = \<lparr> Alloc = 1048576, TotalAlloc = 2097152, Sys = 4194304,
                    PauseNs = replicate 256 0, MemNumGC = 0 \<rparr>,
       NumGoroutine = 3, GOOS = ''linux'', GOARCH = ''amd64'', runtime_NumCPU = 2,
       os_Hostname = ''pod'', uname = None, ParseFloat = (\<lambda>s. None), meminfo = None,
       statfs = None \<rparr>"

definition plain_stats :: stats_in where
  "plain_stats =
     \<lparr> req = Map.empty, env = quiet_host, check_now = 5000000000, dial_answer = Refused,
       store_now = 5050000000 \<rparr>"

section \<open>Properties of the hop counters\<close>

lemma canon_X_Forwarded_For: "CanonicalMIMEHeaderKey ''X-Forwarded-For'' = ''X-Forwarded-For''"
  by code_simp

lemma canon_Via: "CanonicalMIMEHeaderKey ''Via'' = ''Via''"
  by code_simp

lemma canon_X_Request_Id: "CanonicalMIMEHeaderKey ''X-Request-Id'' = ''X-Request-Id''"
  by code_simp

lemma canon_X_Envoy_External_Address:
  "CanonicalMIMEHeaderKey ''X-Envoy-External-Address'' = ''X-Envoy-External-Address''"
  by code_simp

lemma canon_X_Envoy_Decorator_Operation:
  "CanonicalMIMEHeaderKey ''X-Envoy-Decorator-Operation'' = ''X-Envoy-Decorator-Operation''"
  by code_simp

lemma canon_X_B3_TraceId: "CanonicalMIMEHeaderKey ''X-B3-TraceId'' = ''X-B3-Traceid''"
  by code_simp

lemma canon_X_B3_SpanId: "CanonicalMIMEHeaderKey ''X-B3-SpanId'' = ''X-B3-Spanid''"
  by code_simp

lemmas canon_keys = canon_X_Forwarded_For canon_Via canon_X_Request_Id
  canon_X_Envoy_External_Address canon_X_Envoy_Decorator_Operation canon_X_B3_TraceId
  canon_X_B3_SpanId

lemma countCommas_count: "countCommas n s = n + int (count_list s (CHR '',''))"
  by (induction s arbitrary: n) auto

text \<open>
  C6. The traditional-proxy hop count is one more than the number of commas of the
  \<^verbatim>\<open>X-Forwarded-For\<close> value when that value is not empty, plus one more than the number of
  commas of the \<^verbatim>\<open>Via\<close> value when that value is not empty. A request whose only such
  header is \<^verbatim>\<open>X-Forwarded-For: 1.1.1.1,2.2.2.2,3.3.3.3\<close> counts 3, and 4 once
  \<^verbatim>\<open>Via: proxyA\<close> is added.
\<close>

theorem countProxyHops_sum:
  "countProxyHops h =
     (if Get h ''X-Forwarded-For'' \<noteq> []
      then 1 + int (count_list (Get h ''X-Forwarded-For'') (CHR '','')) else 0)
     + (if Get h ''Via'' \<noteq> [] then 1 + int (count_list (Get h ''Via'') (CHR '','')) else 0)
   \<and> countProxyHops (Set_hdr Map.empty ''X-Forwarded-For'' ''1.1.1.1,2.2.2.2,3.3.3.3'') = 3
   \<and> countProxyHops
        (Set_hdr (Set_hdr Map.empty ''X-Forwarded-For'' ''1.1.1.1,2.2.2.2,3.3.3.3'')
           ''Via'' ''proxyA'') = 4"
proof (intro conjI)
  show "countProxyHops h =
     (if Get h ''X-Forwarded-For'' \<noteq> []
      then 1 + int (count_list (Get h ''X-Forwarded-For'') (CHR '','')) else 0)
     + (if Get h ''Via'' \<noteq> [] then 1 + int (count_list (Get h ''Via'') (CHR '','')) else 0)"
    by (simp add: countProxyHops_def Let_def countCommas_count)
  show "countProxyHops (Set_hdr Map.empty ''X-Forwarded-For'' ''1.1.1.1,2.2.2.2,3.3.3.3'') = 3"
    by (simp add: countProxyHops_def Get_def Set_hdr_def canon_keys)
  show "countProxyHops
        (Set_hdr (Set_hdr Map.empty ''X-Forwarded-For'' ''1.1.1.1,2.2.2.2,3.3.3.3'')
           ''Via'' ''proxyA'') = 4"
    by (simp add: countProxyHops_def Get_def Set_hdr_def canon_keys)
qed

section \<open>The store under a sequence of requests\<close>

lemma lastN_append_lastN: "lastN n (lastN n xs @ ys) = lastN n (xs @ ys)"
  by (cases "length xs \<le> n") (auto simp: lastN_def add.commute)

lemma length_lastN: "length (lastN n xs) = min n (length xs)"
  by (auto simp: lastN_def)

lemmas handler_stmts = requests_Add_def requestsViaProxy_Add_def append_latencies_def
  append_proxyHops_def slice_latencies_def slice_proxyHops_def

lemma handler_Inr:
  assumes "length (latencies s) = length (proxyHops s)" "length (latencies s) \<le> 1000"
  shows "\<exists>s'. handler r ms s = Inr s'
     \<and> latencies s' = lastN 1000 (latencies s @ [real_of_int ms])
     \<and> proxyHops s' = lastN 1000 (proxyHops s @ [countTotalHops r])"
proof (cases "length (latencies s) = 1000")
  case True
  then obtain x xs where l: "latencies s = x # xs"
    by (cases "latencies s") auto
  from True assms obtain y ys where h: "proxyHops s = y # ys"
    by (cases "proxyHops s") auto
  from True l h assms have "length xs = 999" "length ys = 999"
    by auto
  then show ?thesis using l h True
    by (simp add: handler_def Let_def handler_stmts lastN_def)
next
  case False
  then show ?thesis using assms
    by (simp add: handler_def Let_def handler_stmts lastN_def)
qed

lemma handlers_Inr:
  assumes "length (latencies s) = length (proxyHops s)" "length (latencies s) \<le> 1000"
  shows "\<exists>s'. handlers reqs s = Inr s'
     \<and> latencies s' = lastN 1000 (latencies s @ map (\<lambda>(r, ms). real_of_int ms) reqs)
     \<and> proxyHops s' = lastN 1000 (proxyHops s @ map (\<lambda>(r, ms). countTotalHops r) reqs)"
  using assms
proof (induction reqs arbitrary: s)
  case Nil
  then show ?case by (simp add: lastN_def)
next
  case (Cons q reqs)
  obtain r ms where q: "q = (r, ms)"
    by (cases q)
  from handler_Inr [OF Cons.prems, of r ms] obtain s1 where
    s1: "handler r ms s = Inr s1" "latencies s1 = lastN 1000 (latencies s @ [real_of_int ms])"
      "proxyHops s1 = lastN 1000 (proxyHops s @ [countTotalHops r])"
    by blast
  have "length (latencies s1) = length (proxyHops s1)" "length (latencies s1) \<le> 1000"
    using s1 Cons.prems by (simp_all add: length_lastN)
  from Cons.IH [OF this] obtain s' where
    s': "handlers reqs s1 = Inr s'"
      "latencies s' = lastN 1000 (latencies s1 @ map (\<lambda>(r, ms). real_of_int ms) reqs)"
      "proxyHops s' = lastN 1000 (proxyHops s1 @ map (\<lambda>(r, ms). countTotalHops r) reqs)"
    by blast
  show ?case using s1 s' q by (simp add: lastN_append_lastN)
qed

text \<open>
  C1. After any sequence of requests served from the start, the store holds at most 1000
  latencies and at most 1000 hop counts: the last 1000 observations that were recorded (all
  of them when there are fewer), in the order of their arrival. No request panics.
\<close>

theorem store_keeps_last_1000:
  "\<exists>s'. handlers reqs main_init = Inr s'
     \<and> length (latencies s') \<le> 1000 \<and> length (proxyHops s') \<le> 1000
     \<and> latencies s' = drop (length reqs - 1000) (map (\<lambda>(r, ms). real_of_int ms) reqs)
     \<and> proxyHops s' = drop (length reqs - 1000) (map (\<lambda>(r, ms). countTotalHops r) reqs)"
proof -
  have "length (latencies main_init) = length (proxyHops main_init)"
    "length (latencies main_init) \<le> 1000"
    by (simp_all add: main_init_def)
  from handlers_Inr [OF this, of reqs] obtain s' where
    "handlers reqs main_init = Inr s'"
    "latencies s' = lastN 1000 (latencies main_init @ map (\<lambda>(r, ms). real_of_int ms) reqs)"
    "proxyHops s' = lastN 1000 (proxyHops main_init @ map (\<lambda>(r, ms). countTotalHops r) reqs)"
    by blast
  then show ?thesis by (auto simp: main_init_def lastN_def)
qed

section \<open>Arithmetic in \<^verbatim>\<open>float64\<close>\<close>

lemma bits_nonneg: "0 \<le> bits n"
  by (induction n rule: bits.induct) (subst bits.simps, simp)

lemma bits_pos: "0 < n \<Longrightarrow> 0 < bits n"
  using bits_nonneg [of "n div 2"] by (subst bits.simps) simp

lemma bits_lower: "0 < n \<Longrightarrow> 2 ^ nat (bits n - 1) \<le> n"
proof (induction n rule: bits.induct)
  case (1 n)
  show ?case
  proof (cases "n div 2 \<le> 0")
    case True
    then have "bits (n div 2) = 0" by (subst bits.simps) simp
    with 1(2) have "bits n = 1" by (subst bits.simps) simp
    with 1(2) show ?thesis by simp
  next
    case False
    then have p: "0 < n div 2" by simp
    from 1(2) have "\<not> n \<le> 0" by simp
    from 1(1) [OF this p] have ih: "2 ^ nat (bits (n div 2) - 1) \<le> n div 2" .
    from 1(2) have b: "bits n = bits (n div 2) + 1" by (subst bits.simps) simp
    from bits_pos [OF p] have "nat (bits (n div 2)) = Suc (nat (bits (n div 2) - 1))" by simp
    then have "(2::int) ^ nat (bits n - 1) = 2 * 2 ^ nat (bits (n div 2) - 1)" by (simp add: b)
    also have "\<dots> \<le> 2 * (n div 2)" using ih by simp
    also have "\<dots> \<le> n" by simp
    finally show ?thesis .
  qed
qed

lemma rne_ge_floor: "\<lfloor>x\<rfloor> \<le> rne x"
  by (simp add: rne_def Let_def)

lemma rne_nearest: "\<bar>of_int (rne x) - x\<bar> \<le> 1 / 2"
  unfolding rne_def Let_def by (auto simp: abs_if) linarith+

lemma pow2_pos: "0 < pow2 e"
  by (simp add: pow2_def)

text \<open>The result of an operation is within half the spacing of the exact result.\<close>

lemma fl_error: "\<bar>fl x - x\<bar> \<le> pow2 (max (binexp \<bar>x\<bar> - 53) (- 1074)) / 2"
proof (cases "x = 0")
  case True
  then show ?thesis using pow2_pos [of "max (binexp \<bar>x\<bar> - 53) (- 1074)"] by (simp add: fl_def)
next
  case False
  define u where "u = pow2 (max (binexp \<bar>x\<bar> - 53) (- 1074))"
  have u: "0 < u" unfolding u_def by (rule pow2_pos)
  define m where "m = rne (\<bar>x\<bar> / u)"
  define y where "y = \<bar>x\<bar>"
  have f: "fl x = sgn x * (of_int m * u)"
    using False by (simp add: fl_def Let_def u_def m_def)
  have "\<bar>of_int m - y / u\<bar> \<le> 1 / 2" unfolding m_def y_def by (rule rne_nearest)
  then have "\<bar>of_int m - y / u\<bar> * u \<le> 1 / 2 * u" using u by (intro mult_right_mono) simp_all
  moreover have "of_int m * u - y = (of_int m - y / u) * u" using u by (simp add: field_simps)
  then have "\<bar>of_int m * u - y\<bar> = \<bar>of_int m - y / u\<bar> * u"
    using u by (simp only: abs_mult abs_of_pos)
  ultimately have d: "\<bar>of_int m * u - y\<bar> \<le> u / 2" by simp
  have "fl x - x = of_int m * u - y \<or> fl x - x = - (of_int m * u - y)"
    using False unfolding f y_def by (cases "0 < x") (simp_all add: sgn_if)
  then have "\<bar>fl x - x\<bar> = \<bar>of_int m * u - y\<bar>" by (metis abs_minus_cancel)
  with d show ?thesis unfolding u_def by simp
qed

text \<open>A number that is at least 1 is not rounded to zero.\<close>

lemma fl_pos:
  assumes "1 \<le> x"
  shows "0 < fl x"
proof -
  define b where "b = bits \<lfloor>x\<rfloor>"
  have fx: "0 < \<lfloor>x\<rfloor>" using assms by linarith
  have b: "0 < b" unfolding b_def using fx by (rule bits_pos)
  then have e: "max (binexp \<bar>x\<bar> - 53) (- 1074) = b - 53"
    using assms by (simp add: binexp_def b_def)
  have le: "pow2 (b - 53) \<le> x"
  proof (cases "0 \<le> b - 53")
    case True
    have "nat (b - 53) \<le> nat (b - 1)" by simp
    then have "(2::int) ^ nat (b - 53) \<le> 2 ^ nat (b - 1)" by (intro power_increasing) simp_all
    also have "\<dots> \<le> \<lfloor>x\<rfloor>" unfolding b_def using fx by (rule bits_lower)
    finally have "real_of_int (2 ^ nat (b - 53)) \<le> real_of_int \<lfloor>x\<rfloor>" by (simp only: of_int_le_iff)
    also have "\<dots> \<le> x" by simp
    finally show ?thesis using True by (simp add: pow2_def)
  next
    case False
    have "(1::real) \<le> 2 ^ nat (- (b - 53))" by simp
    then have "1 / 2 ^ nat (- (b - 53)) \<le> (1::real)" by (simp add: field_simps)
    also note assms
    finally show ?thesis using False by (simp add: pow2_def)
  qed
  then have "1 \<le> x / pow2 (b - 53)" using pow2_pos [of "b - 53"] by (simp add: field_simps)
  then have "1 \<le> \<lfloor>x / pow2 (b - 53)\<rfloor>" by linarith
  with rne_ge_floor [of "x / pow2 (b - 53)"] have "0 < rne (x / pow2 (b - 53))" by linarith
  then have "0 < real_of_int (rne (x / pow2 (b - 53))) * pow2 (b - 53)"
    using pow2_pos [of "b - 53"] by simp
  moreover have "fl x = real_of_int (rne (x / pow2 (b - 53))) * pow2 (b - 53)"
    using assms e by (simp add: fl_def Let_def)
  ultimately show ?thesis by simp
qed

lemma float64_of_int_pos: "0 < n \<Longrightarrow> 0 < float64_of_int n"
  unfolding float64_of_int_def by (rule fl_pos) simp

lemma bits_le: "n < 2 ^ k \<Longrightarrow> bits n \<le> int k"
proof (induction k arbitrary: n)
  case 0
  then show ?case by (subst bits.simps) simp
next
  case (Suc k)
  show ?case
  proof (cases "n \<le> 0")
    case True
    then show ?thesis by (subst bits.simps) simp
  next
    case False
    from Suc.prems have "n div 2 < 2 ^ k" by simp
    from Suc.IH [OF this] False show ?thesis by (subst bits.simps) simp
  qed
qed

lemma bits_ge: "2 ^ k \<le> n \<Longrightarrow> int k + 1 \<le> bits n"
proof (induction k arbitrary: n)
  case 0
  then have "0 < n" by simp
  from bits_pos [OF this] show ?case by simp
next
  case (Suc k)
  then have "2 ^ k \<le> n div 2" by simp
  from Suc.IH [OF this] have "int k + 1 \<le> bits (n div 2)" .
  moreover have "(0::int) < 2 ^ Suc k" by simp
  with Suc.prems have "0 < n" by linarith
  ultimately show ?case by (subst bits.simps) simp
qed

lemma pow2_powi: "pow2 e = 2 powi e"
  by (simp add: pow2_def power_int_def field_simps)

lemma pow2_add: "pow2 (a + b) = pow2 a * pow2 b"
  by (simp add: pow2_powi power_int_add)

lemma pow2_nat: "pow2 (int k) = 2 ^ k"
  by (simp add: pow2_def)

lemma rne_of_int: "rne (of_int k) = k"
  by (simp add: rne_def)

lemma binexp_le:
  assumes "0 < x" "x < pow2 b"
  shows "binexp x \<le> b"
proof (cases "1 \<le> x")
  case True
  with assms(2) have "1 < pow2 b" by simp
  have b: "0 \<le> b"
  proof (rule ccontr)
    assume n: "\<not> 0 \<le> b"
    have k: "(1::real) \<le> 2 ^ nat (- b)" by simp
    from n \<open>1 < pow2 b\<close> have "2 ^ nat (- b) < (1::real)" by (simp add: pow2_def)
    with k show False by linarith
  qed
  with assms(2) have "x < 2 ^ nat b" by (simp add: pow2_def)
  then have "\<lfloor>x\<rfloor> < 2 ^ nat b" by (simp add: floor_less_iff)
  from bits_le [OF this] True b show ?thesis by (simp add: binexp_def)
next
  case False
  show ?thesis
  proof (cases "1 \<le> b")
    case True
    with False bits_nonneg [of "\<lceil>1 / x\<rceil> - 1"] show ?thesis by (simp add: binexp_def)
  next
    case b: False
    then have p: "pow2 b = 1 / 2 ^ nat (- b)" by (simp add: pow2_def)
    from assms have "2 ^ nat (- b) < 1 / x" unfolding p by (simp add: field_simps)
    then have "real_of_int (2 ^ nat (- b)) < 1 / x" by simp
    then have "2 ^ nat (- b) < \<lceil>1 / x\<rceil>" by (simp only: less_ceiling_iff)
    then have "2 ^ nat (- b) \<le> \<lceil>1 / x\<rceil> - 1" by simp
    from bits_ge [OF this] b False show ?thesis by (simp add: binexp_def)
  qed
qed

text \<open>A \<^verbatim>\<open>float64\<close> number is the result of rounding itself.\<close>

lemma fl_float64:
  assumes "\<bar>m\<bar> < 2 ^ 53" "- 1074 \<le> e"
  shows "fl (of_int m * pow2 e) = of_int m * pow2 e"
proof (cases "m = 0")
  case True
  then show ?thesis by (simp add: fl_def)
next
  case False
  define x where "x = real_of_int m * pow2 e"
  define E where "E = max (binexp \<bar>x\<bar> - 53) (- 1074)"
  have ax: "\<bar>x\<bar> = real_of_int \<bar>m\<bar> * pow2 e"
    unfolding x_def using pow2_pos [of e] by (simp add: abs_mult)
  have x0: "0 < \<bar>x\<bar>" unfolding ax using False pow2_pos [of e] by simp
  have "real_of_int \<bar>m\<bar> < real_of_int (2 ^ 53)" using assms(1) by (simp only: of_int_less_iff)
  then have "real_of_int \<bar>m\<bar> < pow2 53" by (simp add: pow2_def)
  then have "\<bar>x\<bar> < pow2 53 * pow2 e" unfolding ax using pow2_pos [of e] by simp
  then have "\<bar>x\<bar> < pow2 (53 + e)" by (simp only: pow2_add)
  from binexp_le [OF x0 this] assms(2) have E: "E \<le> e" unfolding E_def by simp
  have "pow2 e = pow2 (int (nat (e - E))) * pow2 E"
    using E by (simp add: pow2_add [symmetric])
  then have pe: "pow2 e = 2 ^ nat (e - E) * pow2 E" by (simp only: pow2_nat)
  have "\<bar>x\<bar> / pow2 E = real_of_int (\<bar>m\<bar> * 2 ^ nat (e - E))"
    unfolding ax pe using pow2_pos [of E] by simp
  then have "rne (\<bar>x\<bar> / pow2 E) = \<bar>m\<bar> * 2 ^ nat (e - E)" by (simp only: rne_of_int)
  then have "real_of_int (rne (\<bar>x\<bar> / pow2 E)) * pow2 E = \<bar>x\<bar>"
    unfolding ax pe by simp
  moreover have "fl x = sgn x * (real_of_int (rne (\<bar>x\<bar> / pow2 E)) * pow2 E)"
    using x0 by (simp add: fl_def Let_def E_def)
  ultimately have "fl x = sgn x * \<bar>x\<bar>" by simp
  then show ?thesis unfolding x_def [symmetric] by (simp add: sgn_mult_abs)
qed

lemma float64_of_int_exact: "\<bar>n\<bar> < 2 ^ 53 \<Longrightarrow> float64_of_int n = of_int n"
  using fl_float64 [of n 0] by (simp add: float64_of_int_def pow2_def)

text \<open>
  Some values: a decimal with no finite binary expansion, halves between two
  \<^verbatim>\<open>float64\<close> numbers (the even significand wins), and a number that rounds up to a power
  of two.
\<close>

lemma fl_examples:
  "fl (1 / 10) = 3602879701896397 / 36028797018963968"
  "fl (- (1 / 10)) = - (3602879701896397 / 36028797018963968)"
  "fl 9007199254740993 = 9007199254740992"
  "fl 9007199254740995 = 9007199254740996"
  "fl (18014398509481983 / 18014398509481984) = 1"
  by code_simp+

lemma fl_1: "fl 1 = 1"
  by code_simp

lemma fl_100: "fl 100 = 100"
  by code_simp

lemma self_ratio:
  assumes "0 < n"
  shows "fmul (fdiv (float64_of_int n) (float64_of_int n)) 100 = 100"
proof -
  from float64_of_int_pos [OF assms] have "float64_of_int n / float64_of_int n = 1" by simp
  then show ?thesis by (simp add: fmul_def fdiv_def fl_1 fl_100)
qed

section \<open>Rounding\<close>





section \<open>The percentile\<close>

lemma ceil_rank_bounds:
  fixes p :: real
  assumes "0 < p" "p \<le> 1" "0 < n"
  shows "1 \<le> \<lceil>p * real n\<rceil>" "\<lceil>p * real n\<rceil> \<le> int n"
proof -
  have "0 < p * real n" using assms by simp
  then show "1 \<le> \<lceil>p * real n\<rceil>" by linarith
  have "p * real n \<le> 1 * real n" using assms by (intro mult_right_mono) auto
  then have "p * real n \<le> real_of_int (int n)" by simp
  then show "\<lceil>p * real n\<rceil> \<le> int n" by (simp only: ceiling_le_iff)
qed

lemma percentile_pure:
  assumes "data < length h"
  shows "percentile h data p =
     (let xs = sort (h ! data); idx = \<lceil>p * real (length xs)\<rceil> - 1
      in if 0 \<le> idx \<and> idx < int (length xs) then (Inr (xs ! nat idx), h @ [xs])
         else (Inl IndexOutOfRange, h @ [xs]))"
  using assms
  by (simp add: percentile_def alloc_def sort_Float64s_def math_Ceil_def Let_def nth_append)

lemma bitLen_le: "n < 2 ^ k \<Longrightarrow> bitLen n \<le> k"
proof (induction n arbitrary: k rule: bitLen.induct)
  case (1 n)
  show ?case
  proof (cases "n = 0")
    case True
    then show ?thesis by (simp add: bitLen.simps)
  next
    case False
    with "1.prems" obtain j where k: "k = Suc j" by (cases k) auto
    with "1.prems" have "n div 2 < 2 ^ j" by auto
    from "1.IH" [OF False this] show ?thesis using False k by (simp add: bitLen.simps [of n])
  qed
qed

lemma round53_cases:
  assumes "M < 2 ^ 85"
  obtains "round53 M = M"
  | s where "0 < s" "s \<le> 32" "M mod 2 ^ s \<noteq> 0"
      "round53 M = M div 2 ^ s * 2 ^ s \<or> round53 M = (M div 2 ^ s + 1) * 2 ^ s"
proof (cases "bitLen M \<le> 53")
  case True
  then have "round53 M = M" by (simp add: round53_def)
  then show thesis by (rule that(1))
next
  case False
  define s where "s = bitLen M - 53"
  have "bitLen M \<le> 85" using assms by (rule bitLen_le)
  then have s: "0 < s" "s \<le> 32" using False by (simp_all add: s_def)
  have R: "round53 M =
      (if 2 ^ (s - 1) < M mod 2 ^ s \<or> (M mod 2 ^ s = 2 ^ (s - 1) \<and> odd (M div 2 ^ s))
       then M div 2 ^ s + 1 else M div 2 ^ s) * 2 ^ s"
    using False by (simp add: round53_def Let_def s_def)
  show thesis
  proof (cases "M mod 2 ^ s = 0")
    case True
    then have "\<not> (2 ^ (s - 1) < M mod 2 ^ s \<or> (M mod 2 ^ s = 2 ^ (s - 1) \<and> odd (M div 2 ^ s)))"
      by simp
    then have "round53 M = M div 2 ^ s * 2 ^ s" by (simp only: R if_False)
    also have "\<dots> = M" using True div_mult_mod_eq [of M "2 ^ s"] by simp
    finally show thesis by (rule that(1))
  next
    case False
    have "round53 M = M div 2 ^ s * 2 ^ s \<or> round53 M = (M div 2 ^ s + 1) * 2 ^ s"
      unfolding R by (cases "2 ^ (s - 1) < M mod 2 ^ s \<or> (M mod 2 ^ s = 2 ^ (s - 1) \<and> odd (M div 2 ^ s))")
        (simp_all only: if_True if_False simp_thms)
    with s False show thesis by (rule that(2))
  qed
qed

lemma round53_bounds:
  assumes "M < 2 ^ 85" "M \<le> K * 2 ^ 53"
  shows "round53 M \<le> K * 2 ^ 53" "M < round53 M + 2 ^ 32"
proof -
  from assms(1) have "round53 M \<le> K * 2 ^ 53 \<and> M < round53 M + 2 ^ 32"
  proof (cases rule: round53_cases)
    case 1
    then show ?thesis using assms(2) by simp
  next
    case (2 s)
    define q where "q = M div 2 ^ s"
    define r where "r = M mod 2 ^ s"
    have M: "M = q * 2 ^ s + r"
      using div_mult_mod_eq [of M "2 ^ s"] by (simp add: q_def r_def)
    have r0: "0 < r" using 2(3) by (simp add: r_def)
    have "r < 2 ^ s" by (simp add: r_def)
    also have "(2::nat) ^ s \<le> 2 ^ 32" using 2(2) by (intro power_increasing) auto
    finally have r: "r < 2 ^ 32" .
    have "(2::nat) ^ 53 = 2 ^ (53 - s + s)" using 2(2) by simp
    then have P: "(2::nat) ^ 53 = 2 ^ (53 - s) * 2 ^ s" by (simp only: power_add)
    have K: "K * 2 ^ 53 = (K * 2 ^ (53 - s)) * (2 ^ s :: nat)"
      by (simp only: P mult.assoc)
    have "q * 2 ^ s < (K * 2 ^ (53 - s)) * 2 ^ s" using assms(2) M r0 unfolding K by linarith
    then have "q < K * 2 ^ (53 - s)" by simp
    then have "q + 1 \<le> K * 2 ^ (53 - s)" by simp
    then have "(q + 1) * 2 ^ s \<le> (K * 2 ^ (53 - s)) * 2 ^ s" by (rule mult_le_mono1)
    then have up: "(q + 1) * 2 ^ s \<le> K * 2 ^ 53" by (simp only: K)
    have le: "q * 2 ^ s \<le> (q + 1) * 2 ^ s" by simp
    from 2(4) have R: "round53 M = q * 2 ^ s \<or> round53 M = (q + 1) * 2 ^ s"
      by (simp only: q_def)
    from R up le have a: "round53 M \<le> K * 2 ^ 53" by (elim disjE) simp_all
    from R le have "q * 2 ^ s \<le> round53 M" by (elim disjE) simp_all
    with M r have "M < round53 M + 2 ^ 32" by linarith
    with a show ?thesis by simp
  qed
  then show "round53 M \<le> K * 2 ^ 53" "M < round53 M + 2 ^ 32" by simp_all
qed

lemma float64_index_eq:
  assumes n: "0 < n" "n < 2 ^ 32" and m: "m < 2 ^ 53"
    and c: "c \<le> 40" "0 < den" "den \<le> 1000" "den * m + c = num * 2 ^ 53" and num: "0 < num"
  shows "float64_index m n = \<lceil>real num / real den * real n\<rceil> - 1"
proof -
  define K where "K = (num * n + (den - 1)) div den"
  define M where "M = m * n"
  have K1: "num * n \<le> den * K" "den * K < num * n + den"
  proof -
    have "(num * n + (den - 1)) mod den < den" using c(2) by simp
    moreover have "den * K + (num * n + (den - 1)) mod den = num * n + (den - 1)"
      by (simp add: K_def)
    ultimately show "num * n \<le> den * K" "den * K < num * n + den" using c(2) by linarith+
  qed
  have Kc: "int K = \<lceil>real num / real den * real n\<rceil>"
  proof -
    have d: "0 < real den" using c(2) by simp
    have "real (den * K) < real (num * n + den)" "real (num * n) \<le> real (den * K)"
      using K1 by (simp_all only: of_nat_less_iff of_nat_le_iff)
    then have "real den * real K < real num * real n + real den"
      "real num * real n \<le> real den * real K"
      by simp_all
    then have "real K < real num * real n / real den + 1" "real num * real n / real den \<le> real K"
      using d by (simp_all add: field_simps)
    then have "\<lceil>real num / real den * real n\<rceil> = int K"
      by (intro ceiling_unique) simp_all
    then show ?thesis by simp
  qed
  have dM: "den * M + c * n = num * n * 2 ^ 53"
  proof -
    have "den * M + c * n = (den * m + c) * n" by (simp only: M_def algebra_simps)
    also have "\<dots> = num * 2 ^ 53 * n" by (simp only: c(4))
    finally show ?thesis by (simp only: mult.assoc mult.commute mult.left_commute)
  qed
  have Mlt: "M < 2 ^ 85"
  proof -
    have "m * n < 2 ^ 53 * 2 ^ 32" using m n by (intro mult_strict_mono) auto
    then show ?thesis by (simp add: M_def)
  qed
  have up: "M \<le> K * 2 ^ 53"
  proof -
    have "den * M \<le> num * n * 2 ^ 53" using dM by linarith
    also have "\<dots> \<le> den * K * 2 ^ 53" using K1(1) by simp
    finally have "den * M \<le> den * (K * 2 ^ 53)" by (simp add: mult.assoc)
    then show ?thesis using c(2) by simp
  qed
  note rb = round53_bounds [OF Mlt up]
  have Kpos: "0 < K"
  proof (rule ccontr)
    assume "\<not> 0 < K"
    then have "num * n = 0" using K1(1) by simp
    then show False using n(1) num by simp
  qed
  have low: "(K - 1) * 2 ^ 53 + 2 ^ 32 \<le> M"
  proof -
    have "den * (K - 1) + 1 \<le> num * n"
    proof -
      have "den * (K - 1) + den = den * K" using Kpos by (cases K) simp_all
      then show ?thesis using K1(2) by linarith
    qed
    then have "(den * (K - 1) + 1) * 2 ^ 53 \<le> num * n * 2 ^ 53" by (rule mult_le_mono1)
    then have a: "den * (K - 1) * 2 ^ 53 + 2 ^ 53 \<le> den * M + c * n" using dM by (simp add: algebra_simps)
    have "c * n \<le> 40 * 2 ^ 32" using c(1) n(2) by (intro mult_mono) auto
    moreover have "den * 2 ^ 32 \<le> 1000 * (2 ^ 32 :: nat)" using c(3) by (intro mult_le_mono1)
    ultimately have "den * (K - 1) * 2 ^ 53 + den * 2 ^ 32 \<le> den * M" using a by simp
    then have "den * ((K - 1) * 2 ^ 53 + 2 ^ 32) \<le> den * M" by (simp add: algebra_simps)
    then show ?thesis using c(2) by simp
  qed
  have lo: "(K - 1) * 2 ^ 53 < round53 M" using low rb(2) by linarith
  have "(round53 M + (2 ^ 53 - 1)) div 2 ^ 53 = K"
  proof -
    have "K * 2 ^ 53 \<le> round53 M + (2 ^ 53 - 1)"
    proof -
      have "K * 2 ^ 53 = (K - 1) * 2 ^ 53 + 2 ^ 53" using Kpos by (cases K) simp_all
      then show ?thesis using lo by linarith
    qed
    moreover have "round53 M + (2 ^ 53 - 1) < (K + 1) * 2 ^ 53" using rb(1) by simp
    ultimately show ?thesis
      by (metis (no_types, lifting) div_nat_eqI mult.commute Suc_eq_plus1 mult_Suc_right add.commute)
  qed
  then show ?thesis unfolding float64_index_def M_def [symmetric] using Kc by simp
qed

lemma sig_nearest:
  "\<bar>real sig_p50 - 50 / 100 * 2 ^ 53\<bar> < 1 / 2" "\<bar>real sig_p95 - 95 / 100 * 2 ^ 53\<bar> < 1 / 2"
  "\<bar>real sig_p99 - 99 / 100 * 2 ^ 53\<bar> < 1 / 2" "\<bar>real sig_p999 - 999 / 1000 * 2 ^ 53\<bar> < 1 / 2"
  by (simp_all add: sig_p50_def sig_p95_def sig_p99_def sig_p999_def)

lemma float64_index_quantiles:
  assumes "(p, m) \<in> set quantiles" "0 < n" "n < 2 ^ 32"
  shows "float64_index m n = \<lceil>p * real n\<rceil> - 1"
proof -
  from assms(1) consider "p = 50 / 100" "m = sig_p50" | "p = 95 / 100" "m = sig_p95"
    | "p = 99 / 100" "m = sig_p99" | "p = 999 / 1000" "m = sig_p999"
    by (auto simp: quantiles_def)
  then show ?thesis
  proof cases
    case 1
    have "float64_index sig_p50 n = \<lceil>real 1 / real 2 * real n\<rceil> - 1"
      by (rule float64_index_eq [OF assms(2,3), where c = 0]) (simp_all add: sig_p50_def)
    then show ?thesis unfolding 1 by simp
  next
    case 2
    have "float64_index sig_p95 n = \<lceil>real 95 / real 100 * real n\<rceil> - 1"
      by (rule float64_index_eq [OF assms(2,3), where c = 40]) (simp_all add: sig_p95_def)
    then show ?thesis unfolding 2 by simp
  next
    case 3
    have "float64_index sig_p99 n = \<lceil>real 99 / real 100 * real n\<rceil> - 1"
      by (rule float64_index_eq [OF assms(2,3), where c = 8]) (simp_all add: sig_p99_def)
    then show ?thesis unfolding 3 by simp
  next
    case 4
    have "float64_index sig_p999 n = \<lceil>real 999 / real 1000 * real n\<rceil> - 1"
      by (rule float64_index_eq [OF assms(2,3), where c = 8]) (simp_all add: sig_p999_def)
    then show ?thesis unfolding 4 by simp
  qed
qed

lemma bits_int: "bits (int n) = int (bitLen n)"
proof (induction n rule: bitLen.induct)
  case (1 n)
  show ?case
  proof (cases "n = 0")
    case True
    then show ?thesis by (simp add: bits.simps bitLen.simps)
  next
    case False
    have "int n div 2 = int (n div 2)" by simp
    with 1 [OF False] False show ?thesis
      by (subst bits.simps, subst bitLen.simps) simp
  qed
qed

lemma bits_upper: "n < 2 ^ nat (bits n)"
proof (rule ccontr)
  assume "\<not> n < 2 ^ nat (bits n)"
  then have "2 ^ nat (bits n) \<le> n" by simp
  from bits_ge [OF this] bits_nonneg [of n] show False by simp
qed

lemma bitLen_bounds:
  assumes "0 < M"
  shows "2 ^ (bitLen M - 1) \<le> M" "M < 2 ^ bitLen M" "0 < bitLen M"
proof -
  have b: "bits (int M) = int (bitLen M)" by (rule bits_int)
  from assms have p: "0 < int M" by simp
  from bits_pos [OF p] b show l: "0 < bitLen M" by simp
  from bits_lower [OF p] have "(2::int) ^ nat (int (bitLen M) - 1) \<le> int M" unfolding b .
  moreover have "nat (int (bitLen M) - 1) = bitLen M - 1" by simp
  ultimately have "int (2 ^ (bitLen M - 1)) \<le> int M" by simp
  then show "2 ^ (bitLen M - 1) \<le> M" by (simp only: of_nat_le_iff)
  from bits_upper [of "int M"] have "int M < 2 ^ bitLen M" unfolding b by simp
  then have "int M < int (2 ^ bitLen M)" by simp
  then show "M < 2 ^ bitLen M" by (simp only: of_nat_less_iff)
qed

lemma binexp_ge:
  assumes "0 < x" "pow2 (b - 1) \<le> x"
  shows "b \<le> binexp x"
proof (cases "1 \<le> x")
  case True
  then have f: "0 < \<lfloor>x\<rfloor>" by linarith
  show ?thesis
  proof (cases "1 \<le> b")
    case False
    with bits_pos [OF f] True show ?thesis by (simp add: binexp_def)
  next
    case b: True
    with assms(2) have "2 ^ nat (b - 1) \<le> x" by (simp add: pow2_def)
    then have "real_of_int (2 ^ nat (b - 1)) \<le> x" by simp
    then have "2 ^ nat (b - 1) \<le> \<lfloor>x\<rfloor>" by (simp only: le_floor_iff)
    from bits_ge [OF this] b True show ?thesis by (simp add: binexp_def)
  qed
next
  case False
  have b: "b \<le> 0"
  proof (rule ccontr)
    assume "\<not> b \<le> 0"
    then have "(1::real) \<le> pow2 (b - 1)" by (simp add: pow2_def)
    with assms(2) False show False by simp
  qed
  then have p: "pow2 (b - 1) = 1 / 2 ^ nat (1 - b)" by (simp add: pow2_def)
  from assms have "1 / x \<le> 2 ^ nat (1 - b)" unfolding p by (simp add: field_simps)
  then have "1 / x \<le> real_of_int (2 ^ nat (1 - b))" by simp
  then have "\<lceil>1 / x\<rceil> \<le> 2 ^ nat (1 - b)" by (simp only: ceiling_le_iff)
  then have "\<lceil>1 / x\<rceil> - 1 < 2 ^ nat (1 - b)" by simp
  from bits_le [OF this] b False show ?thesis by (simp add: binexp_def)
qed

lemma binexp_eq:
  assumes "0 < x" "pow2 (b - 1) \<le> x" "x < pow2 b"
  shows "binexp x = b"
  using binexp_le [OF assms(1,3)] binexp_ge [OF assms(1,2)] by simp

lemma pow2_neg: "pow2 (- int k) = 1 / 2 ^ k"
  by (simp add: pow2_def)

lemma rne_nat_div:
  fixes M s :: nat
  assumes "0 < s"
  shows "rne (real M / 2 ^ s) =
     int (if 2 ^ (s - 1) < M mod 2 ^ s \<or> (M mod 2 ^ s = 2 ^ (s - 1) \<and> odd (M div 2 ^ s))
          then M div 2 ^ s + 1 else M div 2 ^ s)"
proof -
  define q where "q = M div 2 ^ s"
  define r where "r = M mod 2 ^ s"
  define h where "h = (2::nat) ^ (s - 1)"
  have hs: "(2::nat) ^ s = 2 * h" using assms unfolding h_def by (cases s) simp_all
  have M: "M = q * (2 * h) + r" using div_mult_mod_eq [of M "2 ^ s"] by (simp add: q_def r_def hs)
  have r: "r < 2 * h" unfolding r_def hs [symmetric] by simp
  have h: "0 < h" unfolding h_def by simp
  have x: "real M / 2 ^ s = real q + real r / (2 * real h)"
  proof -
    have "(2::real) ^ s = 2 * real h" using hs by (metis of_nat_numeral of_nat_power of_nat_mult)
    then show ?thesis using h by (subst M) (simp add: field_simps)
  qed
  have fr: "0 \<le> real r / (2 * real h)" "real r / (2 * real h) < 1" using r h by simp_all
  have fl: "\<lfloor>real q + real r / (2 * real h)\<rfloor> = int q"
    using fr by (intro floor_unique) simp_all
  have d: "real q + real r / (2 * real h) - real_of_int (int q) = real r / (2 * real h)" by simp
  have c1: "real r / (2 * real h) < 1 / 2 \<longleftrightarrow> r < h" using h by (simp add: field_simps)
  have c2: "1 / 2 < real r / (2 * real h) \<longleftrightarrow> h < r" using h by (simp add: field_simps)
  have "rne (real q + real r / (2 * real h))
      = (if r < h then int q else if h < r then int q + 1 else if even q then int q else int q + 1)"
    unfolding rne_def Let_def fl d c1 c2 by simp
  also have "\<dots> = int (if h < r \<or> (r = h \<and> odd q) then q + 1 else q)"
    by auto
  finally show ?thesis unfolding x q_def r_def h_def .
qed

lemma fl_round53:
  assumes "0 < M"
  shows "fl (real M / 2 ^ 53) = real (round53 M) / 2 ^ 53"
proof (cases "bitLen M \<le> 53")
  case True
  note b = bitLen_bounds [OF assms]
  have "(2::nat) ^ bitLen M \<le> 2 ^ 53" using True by (intro power_increasing) simp_all
  with b(2) have "M < 2 ^ 53" by linarith
  then have "int M < 2 ^ 53" by (metis of_nat_less_iff of_nat_numeral of_nat_power)
  then have "\<bar>int M\<bar> < 2 ^ 53" by simp
  from fl_float64 [OF this, of "- 53"]
  have "fl (real M / 2 ^ 53) = real M / 2 ^ 53" by (simp add: pow2_def)
  with True show ?thesis by (simp add: round53_def)
next
  case False
  define L where "L = bitLen M"
  define s where "s = L - 53"
  have s: "0 < s" "L = s + 53" using False by (simp_all add: s_def L_def)
  note b = bitLen_bounds [OF assms, folded L_def]
  define x where "x = real M / 2 ^ 53"
  have x0: "0 < x" using assms by (simp add: x_def)
  have xp: "x = real M * pow2 (- 53)" by (simp add: x_def pow2_def)
  have lo: "pow2 (int s - 1) \<le> x"
  proof -
    have "real (2 ^ (L - 1)) \<le> real M" using b(1) by (simp only: of_nat_le_iff)
    then have "pow2 (int (L - 1)) \<le> real M" by (simp add: pow2_nat)
    then have "pow2 (int (L - 1)) * pow2 (- 53) \<le> x"
      unfolding xp using pow2_pos [of "- 53"] by simp
    moreover have "int (L - 1) + (- 53) = int s - 1" using s by simp
    ultimately show ?thesis by (simp only: pow2_add [symmetric])
  qed
  have hi: "x < pow2 (int s)"
  proof -
    have "real M < real (2 ^ L)" using b(2) by (simp only: of_nat_less_iff)
    then have "real M < pow2 (int L)" by (simp add: pow2_nat)
    then have "x < pow2 (int L) * pow2 (- 53)"
      unfolding xp using pow2_pos [of "- 53"] by simp
    moreover have "int L + (- 53) = int s" using s by simp
    ultimately show ?thesis by (simp only: pow2_add [symmetric])
  qed
  have be: "binexp x = int s" using binexp_eq [OF x0 lo hi] .
  have E: "max (binexp x - 53) (- 1074) = int s - 53" using be by simp
  have "pow2 (- 53) = pow2 (- int s) * pow2 (int s - 53)" by (simp add: pow2_add [symmetric])
  then have "x / pow2 (int s - 53) = real M * pow2 (- int s)"
    unfolding xp using pow2_pos [of "int s - 53"] by simp
  then have q: "x / pow2 (int s - 53) = real M / 2 ^ s" by (simp add: pow2_neg)
  have "fl x = real_of_int (rne (real M / 2 ^ s)) * pow2 (int s - 53)"
    using x0 by (simp add: fl_def Let_def E q)
  also have "pow2 (int s - 53) = pow2 (int s) * pow2 (- 53)" by (simp add: pow2_add [symmetric])
  also have "\<dots> = 2 ^ s / 2 ^ 53" by (simp add: pow2_nat pow2_def)
  finally have f: "fl x = real_of_int (rne (real M / 2 ^ s)) * (2 ^ s / 2 ^ 53)" .
  have R: "round53 M =
      (if 2 ^ (s - 1) < M mod 2 ^ s \<or> (M mod 2 ^ s = 2 ^ (s - 1) \<and> odd (M div 2 ^ s))
       then M div 2 ^ s + 1 else M div 2 ^ s) * 2 ^ s"
    using False by (simp add: round53_def Let_def s_def L_def)
  show ?thesis unfolding x_def [symmetric] f rne_nat_div [OF s(1)] R by simp
qed

lemma ceiling_nat_div:
  fixes a b :: nat
  assumes "0 < b"
  shows "\<lceil>real a / real b\<rceil> = int ((a + (b - 1)) div b)"
proof -
  define q where "q = (a + (b - 1)) div b"
  define r where "r = (a + (b - 1)) mod b"
  have e: "a + (b - 1) = q * b + r" using div_mult_mod_eq [of "a + (b - 1)" b] by (simp add: q_def r_def)
  have r: "r < b" using assms by (simp add: r_def)
  have b1: "real (b - 1) = real b - 1" using assms by (simp add: of_nat_diff)
  have "real (a + (b - 1)) = real (q * b + r)" using e by (simp only:)
  then have "real a + real (b - 1) = real q * real b + real r"
    by (simp only: of_nat_add of_nat_mult)
  then have "real a + (real b - 1) = real q * real b + real r" by (simp only: b1)
  then have a: "real a = real q * real b + real r - (real b - 1)" by simp
  have "\<lceil>real a / real b\<rceil> = int q"
  proof (rule ceiling_unique)
    have "real q * real b - real b < real a" unfolding a using r by simp
    then show "real_of_int (int q) - 1 < real a / real b" using assms by (simp add: field_simps)
    from r have "r \<le> b - 1" by simp
    then have "real r \<le> real (b - 1)" by (simp only: of_nat_le_iff)
    then have "real r \<le> real b - 1" by (simp only: b1)
    then have "real a \<le> real q * real b" unfolding a by simp
    then show "real a / real b \<le> real_of_int (int q)" using assms by (simp add: field_simps)
  qed
  then show ?thesis by (simp add: q_def)
qed

lemma float64_index_fl:
  assumes "0 < m" "0 < len"
  shows "float64_index m len = \<lceil>fl (real m / 2 ^ 53 * real len)\<rceil> - 1"
proof -
  have M: "0 < m * len" using assms by simp
  have "real m / 2 ^ 53 * real len = real (m * len) / 2 ^ 53" by simp
  then have "fl (real m / 2 ^ 53 * real len) = real (round53 (m * len)) / 2 ^ 53"
    using fl_round53 [OF M] by simp
  also have "\<dots> = real (round53 (m * len)) / real (2 ^ 53)" by simp
  finally have "\<lceil>fl (real m / 2 ^ 53 * real len)\<rceil>
      = int ((round53 (m * len) + (2 ^ 53 - 1)) div 2 ^ 53)"
    by (simp only: ceiling_nat_div [of "2 ^ 53"] zero_less_power zero_less_numeral)
  then show ?thesis by (simp add: float64_index_def)
qed

text \<open>
  The index in the terms of the \<^verbatim>\<open>float64\<close> operations: the constant \<^verbatim>\<open>p\<close> of the source
  is the \<^verbatim>\<open>float64\<close> nearest to its decimal, the length converts exactly, and the ceiling
  of the \<^verbatim>\<open>float64\<close> product is the ceiling of the exact product.
\<close>

lemma fl_quantiles:
  "fl (50 / 100) = real sig_p50 / 2 ^ 53" "fl (95 / 100) = real sig_p95 / 2 ^ 53"
  "fl (99 / 100) = real sig_p99 / 2 ^ 53" "fl (999 / 1000) = real sig_p999 / 2 ^ 53"
proof -
  have "fl (50 / 100) = 4503599627370496 / 9007199254740992"
    "fl (95 / 100) = 8556839292003942 / 9007199254740992"
    "fl (99 / 100) = 8917127262193582 / 9007199254740992"
    "fl (999 / 1000) = 8998192055486251 / 9007199254740992"
    by code_simp+
  then show "fl (50 / 100) = real sig_p50 / 2 ^ 53" "fl (95 / 100) = real sig_p95 / 2 ^ 53"
    "fl (99 / 100) = real sig_p99 / 2 ^ 53" "fl (999 / 1000) = real sig_p999 / 2 ^ 53"
    by (simp_all add: sig_p50_def sig_p95_def sig_p99_def sig_p999_def)
qed

lemma percentile_index_float64:
  assumes "(p, m) \<in> set quantiles" "0 < n" "n < 2 ^ 32"
  shows "\<lceil>fmul (fl p) (float64_of_int (int n))\<rceil> - 1 = \<lceil>p * real n\<rceil> - 1"
proof -
  from assms(1) consider "p = 50 / 100" "m = sig_p50" | "p = 95 / 100" "m = sig_p95"
    | "p = 99 / 100" "m = sig_p99" | "p = 999 / 1000" "m = sig_p999"
    by (auto simp: quantiles_def)
  then have p: "fl p = real m / 2 ^ 53"
    by cases (simp_all only: fl_quantiles)
  have m: "0 < m"
    using assms(1) by (auto simp: quantiles_def sig_p50_def sig_p95_def sig_p99_def sig_p999_def)
  have "(2::nat) ^ 32 \<le> 2 ^ 53" by (intro power_increasing) simp_all
  with assms(3) have "n < 2 ^ 53" by linarith
  then have "int n < 2 ^ 53" by (metis of_nat_less_iff of_nat_numeral of_nat_power)
  then have "\<bar>int n\<bar> < 2 ^ 53" by simp
  then have n: "float64_of_int (int n) = real n" using float64_of_int_exact [of "int n"] by simp
  have "\<lceil>fmul (fl p) (float64_of_int (int n))\<rceil> - 1 = float64_index m n"
    unfolding p n fmul_def using float64_index_fl [OF m assms(2)] by simp
  with float64_index_quantiles [OF assms] show ?thesis by simp
qed

text \<open>
  C3. For a slice that is not empty and \<open>p\<close> one of 0.50, 0.95, 0.99 and 0.999,
  \<^verbatim>\<open>percentile\<close> does not panic. It adds one array to the heap, the data sorted ascending,
  and leaves every array the heap held before, the caller's among them, as it was. It
  returns the element of the sorted copy at index \<open>\<lceil>p * len\<rceil> - 1\<close>, which lies between 0
  and \<open>len - 1\<close>; for a slice of one element that is the element. The index is the one
  that \<^verbatim>\<open>float64\<close> arithmetic gives, for every length below \<open>2^32\<close>.
\<close>

theorem percentile_nearest_rank:
  assumes "data < length h" "h ! data \<noteq> []" "(p, m) \<in> set quantiles"
  shows "\<exists>v h'. percentile h data p = (Inr v, h')
     \<and> length h' = Suc (length h) \<and> take (length h) h' = h
     \<and> sorted (h' ! length h) \<and> mset (h' ! length h) = mset (h ! data)
     \<and> v = h' ! length h ! nat (\<lceil>p * real (length (h ! data))\<rceil> - 1)
     \<and> 0 \<le> \<lceil>p * real (length (h ! data))\<rceil> - 1
     \<and> \<lceil>p * real (length (h ! data))\<rceil> - 1 \<le> int (length (h ! data)) - 1
     \<and> (\<forall>x. h ! data = [x] \<longrightarrow> v = x)
     \<and> (length (h ! data) < 2 ^ 32 \<longrightarrow>
          float64_index m (length (h ! data)) = \<lceil>p * real (length (h ! data))\<rceil> - 1)"
proof -
  let ?n = "length (h ! data)"
  have n: "0 < ?n" using assms(2) by simp
  have p: "0 < p" "p \<le> 1" using assms(3) by (auto simp: quantiles_def)
  note b = ceil_rank_bounds [OF p n]
  have eq: "percentile h data p =
      (Inr (sort (h ! data) ! nat (\<lceil>p * real ?n\<rceil> - 1)), h @ [sort (h ! data)])"
    using b by (simp add: percentile_pure [OF assms(1)] Let_def)
  have one: "\<forall>x. h ! data = [x] \<longrightarrow> sort (h ! data) ! nat (\<lceil>p * real ?n\<rceil> - 1) = x"
  proof (intro allI impI)
    fix x assume x: "h ! data = [x]"
    then have "?n = 1" by simp
    with b have "\<lceil>p * real ?n\<rceil> = 1" by linarith
    then show "sort (h ! data) ! nat (\<lceil>p * real ?n\<rceil> - 1) = x" using x by simp
  qed
  have fl: "?n < 2 ^ 32 \<longrightarrow> float64_index m ?n = \<lceil>p * real ?n\<rceil> - 1"
    using float64_index_quantiles [OF assms(3) n] by blast
  show ?thesis using eq b one fl by simp
qed

theorem percentile_nearest_rank_witness:
  "percentile [[30, 10, 20, 40]] 0 (95 / 100) = (Inr 40, [[30, 10, 20, 40], [10, 20, 30, 40]])
   \<and> float64_index sig_p95 (length [30, 10, 20, 40 :: real]) = 3"
proof -
  have q: "(95 / 100, sig_p95) \<in> set quantiles"
    by (simp add: quantiles_def)
  have d: "0 < length [[30, 10, 20, 40 :: real]]" "[[30, 10, 20, 40 :: real]] ! 0 \<noteq> []"
    by simp_all
  from percentile_nearest_rank [OF d q]
  have "length ([[30, 10, 20, 40 :: real]] ! 0) < 2 ^ 32 \<longrightarrow>
      float64_index sig_p95 (length ([[30, 10, 20, 40 :: real]] ! 0))
        = \<lceil>95 / 100 * real (length ([[30, 10, 20, 40 :: real]] ! 0))\<rceil> - 1"
    by blast
  then have "float64_index sig_p95 (length [30, 10, 20, 40 :: real]) = 3"
    by simp
  moreover have "percentile [[30, 10, 20, 40]] 0 (95 / 100)
      = (Inr 40, [[30, 10, 20, 40], [10, 20, 30, 40]])"
    by (simp add: percentile_def alloc_def sort_Float64s_def math_Ceil_def)
  ultimately show ?thesis by simp
qed

section \<open>The statistics record\<close>

lemma sint_of_nat_small:
  assumes "n < 2 ^ 63"
  shows "sint (of_nat n :: 64 word) = int n"
proof -
  have "signed_take_bit 63 (int n) = int n"
    using assms by (intro signed_take_bit_int_eq_self) auto
  then show ?thesis by (simp add: signed_of_nat)
qed

lemma sint_self_ratio:
  fixes tr :: "64 word"
  assumes "0 <s tr"
  shows "fmul (fdiv (float64_of_int (sint (tr - 0))) (float64_of_int (sint tr))) 100 = 100"
proof -
  have "0 < sint tr" using assms by (simp add: word_sless_alt)
  from self_ratio [OF this] show ?thesis by (simp only: diff_zero)
qed

lemma percentile_at_0:
  assumes "lc \<noteq> []" "0 < p" "p \<le> 1"
  shows "percentile (lc # h) 0 p =
     (Inr (sort lc ! nat (\<lceil>p * real (length lc)\<rceil> - 1)), (lc # h) @ [sort lc])"
proof -
  have n: "0 < length lc" using assms(1) by simp
  note b = ceil_rank_bounds [OF assms(2,3) n]
  show ?thesis using b
    by (simp add: percentile_def alloc_def sort_Float64s_def math_Ceil_def Let_def nth_append)
qed

lemma percentile_empty: "fst (percentile [[]] 0 p) = Inl IndexOutOfRange"
  by (simp add: percentile_def alloc_def sort_Float64s_def math_Ceil_def Let_def)


lemma round_go_100: "round_go 100 = 100"
  by code_simp

lemma percentile_calls:
  assumes "lc \<noteq> []"
  shows "percentile [lc] 0 (50 / 100)
      = (Inr (sort lc ! nat (\<lceil>50 / 100 * real (length lc)\<rceil> - 1)), [lc, sort lc])"
    "percentile [lc, sort lc] 0 (95 / 100)
      = (Inr (sort lc ! nat (\<lceil>95 / 100 * real (length lc)\<rceil> - 1)), [lc, sort lc, sort lc])"
    "percentile [lc, sort lc, sort lc] 0 (99 / 100)
      = (Inr (sort lc ! nat (\<lceil>99 / 100 * real (length lc)\<rceil> - 1)), [lc, sort lc, sort lc, sort lc])"
    "percentile [lc, sort lc, sort lc, sort lc] 0 (999 / 1000)
      = (Inr (sort lc ! nat (\<lceil>999 / 1000 * real (length lc)\<rceil> - 1)),
         [lc, sort lc, sort lc, sort lc, sort lc])"
  using percentile_at_0 [OF assms, of "50 / 100" "[]"]
    percentile_at_0 [OF assms, of "95 / 100" "[sort lc]"]
    percentile_at_0 [OF assms, of "99 / 100" "[sort lc, sort lc]"]
    percentile_at_0 [OF assms, of "999 / 1000" "[sort lc, sort lc, sort lc]"]
  by simp_all

lemma statsHandler_result_Inr: "\<exists>st. statsHandler_result lc hc tr te tv r istio e = Inr st"
proof (cases "lc = []")
  case True
  then show ?thesis unfolding statsHandler_result_def Let_def
    by (simp add: case_prod_beta)
next
  case False
  from percentile_calls [OF False] show ?thesis using False
    unfolding statsHandler_result_def Let_def
    by (simp add: case_prod_beta)
qed

lemma statsHandler_result_facts:
  assumes "statsHandler_result lc hc tr te tv r istio e = Inr st"
  shows "Requests st = tr \<and> Errors st = te \<and> RequestsViaProxy st = tv
    \<and> RequestsPerSecond st = round_go (fdiv (float64_of_int (sint tr)) (uptime e))
    \<and> SuccessRate st =
        round_go (if 0 <s tr
                  then fmul (fdiv (float64_of_int (sint (tr - te))) (float64_of_int (sint tr))) 100
                  else 100)
    \<and> (lc = [] \<longrightarrow> AvgLatency st = 0 \<and> P50Latency st = 0 \<and> P95Latency st = 0
          \<and> P99Latency st = 0 \<and> P999Latency st = 0 \<and> MinLatency st = 0 \<and> MaxLatency st = 0)
    \<and> ProxyHopCount st = countProxyHops r \<and> ServiceMeshHops st = countServiceMeshHops r
    \<and> TotalHopCount st = countProxyHops r + countServiceMeshHops r
    \<and> CurrentHopCount st = countProxyHops r + countServiceMeshHops r
    \<and> ProxyDetected st = (0 < countProxyHops r + countServiceMeshHops r)
    \<and> IstioSidecar st = istio"
proof (cases "lc = []")
  case True
  then show ?thesis using assms unfolding statsHandler_result_def Let_def
    by (auto simp: case_prod_beta round_go_100)
next
  case False
  from percentile_calls [OF False] show ?thesis using False assms
    unfolding statsHandler_result_def Let_def
    by (auto simp: case_prod_beta round_go_100)
qed








text \<open>
  The \<^verbatim>\<open>float64\<close> nearest to 2.675 lies below it, yet its product with 100 is rounded to
  267.5, so \<^verbatim>\<open>round\<close> gives the \<^verbatim>\<open>float64\<close> nearest to 2.68: the integer that is rounded
  half away from zero is the one nearest to the \<^verbatim>\<open>float64\<close> product, which need not be the
  one nearest to the exact product.
\<close>

lemma round_go_float_product:
  "fl (2675 / 1000) = 3011782250804019 / 1125899906842624
   \<and> nearest_away (3011782250804019 / 1125899906842624 * 100) 267
   \<and> nearest_away (fmul (3011782250804019 / 1125899906842624) 100) 268
   \<and> round_go (3011782250804019 / 1125899906842624) = fl (268 / 100)"
proof -
  have a: "fl (2675 / 1000) = 3011782250804019 / 1125899906842624" by code_simp
  have b: "fmul (3011782250804019 / 1125899906842624) 100 = 535 / 2" by code_simp
  have c: "round_go (3011782250804019 / 1125899906842624) = fl (268 / 100)" by code_simp
  have d: "nearest_away (3011782250804019 / 1125899906842624 * 100) 267"
    by (simp add: nearest_away_def)
  have e: "nearest_away (fmul (3011782250804019 / 1125899906842624) 100) 268"
    unfolding b by (simp add: nearest_away_def)
  from a c d e show ?thesis by blast
qed
text \<open>
  A mean of hop counts or latencies: \<open>801 / 40\<close> is rounded to the \<^verbatim>\<open>float64\<close> below
  20.025, whose product with 100 is below 2002.5, so \<^verbatim>\<open>round\<close> gives the \<^verbatim>\<open>float64\<close>
  nearest to 20.02.
\<close>

lemma round_go_mean_example:
  "fdiv 801 40 = 2818268204315443 / 140737488355328"
  "fmul (2818268204315443 / 140737488355328) 100 = 8807088138485759 / 4398046511104"
  "round_go (fdiv 801 40) = fl (2002 / 100)"
  by code_simp+



lemma countServiceMeshHops_filter:
  "countServiceMeshHops h = int (length (filter (\<lambda>k. Get h k \<noteq> []) meshMarkers))"
  by (simp add: countServiceMeshHops_def meshMarkers_def Let_def)

lemma mesh_example:
  assumes "a \<noteq> []" "b \<noteq> []"
  shows "countServiceMeshHops (Set_hdr (Set_hdr Map.empty ''X-B3-TraceId'' a) ''X-Envoy-Decorator-Operation'' b) = 2"
    "countProxyHops (Set_hdr (Set_hdr Map.empty ''X-B3-TraceId'' a) ''X-Envoy-Decorator-Operation'' b) = 0"
  using assms
  by (simp_all add: countServiceMeshHops_def countProxyHops_def Get_def Set_hdr_def canon_keys)

text \<open>
  C7. The service-mesh hop count is the number of the five marker headers whose value is
  not empty, whatever the value is. The total is the traditional count plus the mesh
  count, and in a statistics record \<open>ProxyDetected\<close> says that the total is positive. A
  request with \<^verbatim>\<open>X-B3-TraceId\<close> and \<^verbatim>\<open>X-Envoy-Decorator-Operation\<close> and no other
  header counts 2 mesh hops and no traditional hop.
\<close>

theorem hops_total_and_detection:
  "countServiceMeshHops h = int (length (filter (\<lambda>k. Get h k \<noteq> []) meshMarkers))
   \<and> countTotalHops h = countProxyHops h + countServiceMeshHops h
   \<and> (statsHandler_result lc hc tr te tv h istio e = Inr st \<longrightarrow>
         ProxyHopCount st = countProxyHops h \<and> ServiceMeshHops st = countServiceMeshHops h
         \<and> TotalHopCount st = ProxyHopCount st + ServiceMeshHops st
         \<and> ProxyDetected st = (0 < TotalHopCount st))
   \<and> (a \<noteq> [] \<longrightarrow> b \<noteq> [] \<longrightarrow>
         countServiceMeshHops
           (Set_hdr (Set_hdr Map.empty ''X-B3-TraceId'' a) ''X-Envoy-Decorator-Operation'' b) = 2
         \<and> countProxyHops
           (Set_hdr (Set_hdr Map.empty ''X-B3-TraceId'' a) ''X-Envoy-Decorator-Operation'' b) = 0
         \<and> countTotalHops
           (Set_hdr (Set_hdr Map.empty ''X-B3-TraceId'' a) ''X-Envoy-Decorator-Operation'' b) = 2)"
  using countServiceMeshHops_filter [of h] statsHandler_result_facts [of lc hc tr te tv h istio e st]
    mesh_example [of a b]
  by (simp add: countTotalHops_def)

theorem hops_total_and_detection_witness:
  "\<exists>st. statsHandler_result [] [] 0 0 0
      (Set_hdr (Set_hdr Map.empty ''X-B3-TraceId'' ''4bf92f35'') ''X-Envoy-Decorator-Operation'' ''checkout'')
      False quiet_host = Inr st
     \<and> ServiceMeshHops st = 2 \<and> ProxyHopCount st = 0 \<and> TotalHopCount st = 2 \<and> ProxyDetected st"
proof -
  let ?h = "Set_hdr (Set_hdr Map.empty ''X-B3-TraceId'' ''4bf92f35'') ''X-Envoy-Decorator-Operation'' ''checkout''"
  obtain st where st: "statsHandler_result [] [] 0 0 0 ?h False quiet_host = Inr st"
    using statsHandler_result_Inr by blast
  have ne: "''4bf92f35'' \<noteq> []" "''checkout'' \<noteq> []" by simp_all
  note T = hops_total_and_detection [of ?h "[]" "[]" 0 0 0 False quiet_host st "''4bf92f35''" "''checkout''"]
  from T [THEN conjunct2, THEN conjunct2, THEN conjunct1] st
  have f: "ProxyHopCount st = countProxyHops ?h" "ServiceMeshHops st = countServiceMeshHops ?h"
    "TotalHopCount st = ProxyHopCount st + ServiceMeshHops st"
    "ProxyDetected st = (0 < TotalHopCount st)"
    by blast+
  from T [THEN conjunct2, THEN conjunct2, THEN conjunct2] ne
  have g: "countServiceMeshHops ?h = 2" "countProxyHops ?h = 0"
    by blast+
  have "ServiceMeshHops st = 2 \<and> ProxyHopCount st = 0 \<and> TotalHopCount st = 2 \<and> ProxyDetected st"
    unfolding f g by simp
  with st show ?thesis by blast
qed

section \<open>The sidecar probe cache\<close>

lemma time_Since_At: "time_Since now (At t0) < 30 * Second \<longleftrightarrow> now - t0 < 30000000000"
  by (auto simp: time_Since_def Second_def maxDuration_def minDuration_def)

lemma time_Since_Zero: "\<not> time_Since now ZeroTime < 30 * Second"
  by (simp add: time_Since_def Second_def maxDuration_def)

text \<open>
  C8. A call less than 30 seconds after the last check returns the cached value, changes
  nothing and dials nothing. A call 30 seconds or more after it, or before any check, dials
  once, stores whether the dial connected together with the time of the store, and returns
  that. Two calls within the window of one check return the same value, and so does a call
  that follows a refresh by less than 30 seconds.
\<close>

theorem istioSidecarPresent_cooldown:
  "(time_Since now (istioLastChecked s) < 30 * Second \<longrightarrow>
      istioSidecarPresent now d now' s = (istioPresentCached s, s, []))
   \<and> (\<not> time_Since now (istioLastChecked s) < 30 * Second \<longrightarrow>
      istioSidecarPresent now d now' s =
        (d = Connected, s\<lparr> istioPresentCached := (d = Connected), istioLastChecked := At now' \<rparr>,
         [''127.0.0.1:15000'']))
   \<and> (time_Since now (istioLastChecked s) < 30 * Second \<longrightarrow>
      time_Since now2 (istioLastChecked s) < 30 * Second \<longrightarrow>
      (case istioSidecarPresent now d now' s of (b1, s1, t1) \<Rightarrow>
         istioSidecarPresent now2 d2 now2' s1 = (b1, s, []) \<and> t1 = []))
   \<and> (\<not> time_Since now (istioLastChecked s) < 30 * Second \<longrightarrow> now2 - now' < 30000000000 \<longrightarrow>
      (case istioSidecarPresent now d now' s of (b1, s1, t1) \<Rightarrow>
         istioSidecarPresent now2 d2 now2' s1 = (b1, s1, [])))
   \<and> (istioLastChecked s = At t0 \<longrightarrow>
        (time_Since now (istioLastChecked s) < 30 * Second) = (now - t0 < 30000000000))
   \<and> (istioLastChecked s = ZeroTime \<longrightarrow> \<not> time_Since now (istioLastChecked s) < 30 * Second)"
proof -
  have p: "probeEnvoyAdmin d = (d = Connected)" by (cases d) (simp_all add: probeEnvoyAdmin_def)
  show ?thesis
    by (auto simp: istioSidecarPresent_def istio_read_def istio_write_def Let_def p
        time_Since_At time_Since_Zero)
qed

theorem istioSidecarPresent_cooldown_witness:
  "istioSidecarPresent 5000000000 Connected 5050000000 main_init =
     (True, main_init\<lparr> istioPresentCached := True, istioLastChecked := At 5050000000 \<rparr>,
      [''127.0.0.1:15000''])
   \<and> istioSidecarPresent 9000000000 Refused 9050000000
        (main_init\<lparr> istioPresentCached := True, istioLastChecked := At 5050000000 \<rparr>) =
     (True, main_init\<lparr> istioPresentCached := True, istioLastChecked := At 5050000000 \<rparr>, [])
   \<and> istioSidecarPresent 35050000000 Refused 35100000000
        (main_init\<lparr> istioPresentCached := True, istioLastChecked := At 5050000000 \<rparr>) =
     (False, main_init\<lparr> istioPresentCached := False, istioLastChecked := At 35100000000 \<rparr>,
      [''127.0.0.1:15000''])"
proof -
  let ?s = "main_init\<lparr> istioPresentCached := True, istioLastChecked := At 5050000000 \<rparr>"
  have a: "\<not> time_Since 5000000000 (istioLastChecked main_init) < 30 * Second"
    by (simp add: main_init_def time_Since_Zero)
  have b: "time_Since 9000000000 (istioLastChecked ?s) < 30 * Second"
    by (simp add: time_Since_At)
  have c: "\<not> time_Since 35050000000 (istioLastChecked ?s) < 30 * Second"
    by (simp add: time_Since_At)
  from a istioSidecarPresent_cooldown [of 5000000000 main_init Connected 5050000000]
  have 1: "istioSidecarPresent 5000000000 Connected 5050000000 main_init =
     (True, ?s, [''127.0.0.1:15000''])" by simp
  from b istioSidecarPresent_cooldown [of 9000000000 ?s Refused 9050000000]
  have 2: "istioSidecarPresent 9000000000 Refused 9050000000 ?s = (True, ?s, [])" by simp
  from c istioSidecarPresent_cooldown [of 35050000000 ?s Refused 35100000000]
  have 3: "istioSidecarPresent 35050000000 Refused 35100000000 ?s =
     (False, main_init\<lparr> istioPresentCached := False, istioLastChecked := At 35100000000 \<rparr>,
      [''127.0.0.1:15000''])" by (simp add: main_init_def)
  from 1 2 3 show ?thesis by simp
qed

section \<open>Schedules and invariants\<close>

lemma filter_update_count:
  assumes "k < length xs"
  shows "length (filter P (xs[k := y])) + (if P (xs ! k) then 1 else 0)
       = length (filter P xs) + (if P y then 1 else 0)"
  using assms
proof (induction xs arbitrary: k)
  case Nil
  then show ?case by simp
next
  case (Cons x xs)
  then show ?case by (cases k) auto
qed

lemma run_snoc:
  "run (es @ [e]) c =
     (case run es c of None \<Rightarrow> None
      | Some (sys, seen) \<Rightarrow>
          (case step e sys of None \<Rightarrow> None | Some sys' \<Rightarrow> Some (sys', seen @ arrival e sys)))"
proof (induction es arbitrary: c)
  case Nil
  then show ?case by (cases c) (simp split: option.splits)
next
  case (Cons a es)
  then show ?case by (cases c) (simp split: option.splits)
qed

lemma step_Run_cases:
  assumes "step (Run k) sys = Some sys'"
  obtains (handler) pc hops lat s' pc' where
      "k < length (gs sys)" "gs sys ! k = HandlerG pc hops lat"
      "handler_step pc hops lat (sh sys) = Some (s', pc')"
      "sys' = \<lparr> sh = s', gs = (gs sys)[k := HandlerG pc' hops lat] \<rparr>"
  | (stats) pc i l s' pc' l' where
      "k < length (gs sys)" "gs sys ! k = StatsG pc i l"
      "stats_step pc i l (sh sys) = Some (s', pc', l')"
      "sys' = \<lparr> sh = s', gs = (gs sys)[k := StatsG pc' i l'] \<rparr>"
  | (debug) r addr where
      "k < length (gs sys)" "gs sys ! k = DebugG r addr None"
      "sys' = \<lparr> sh = sh sys, gs = (gs sys)[k := DebugG r addr (Some (debugHeadersHandler r addr))] \<rparr>"
  using assms
  by (auto simp: step_def split: if_splits goroutine.splits option.splits)

lemma step_new_cases:
  assumes "step e sys = Some sys'" "\<forall>k. e \<noteq> Run k"
  shows "\<exists>g. sys' = \<lparr> sh = sh sys, gs = gs sys @ [g] \<rparr> \<and> \<not> in_cs g \<and> \<not> reading g
    \<and> \<not> past_requests_Add g \<and> \<not> past_requestsViaProxy_Add g \<and> stats_rel g
    \<and> (\<forall>seen s. g_rel g seen s) \<and> (\<forall>pc i l. g = StatsG pc i l \<longrightarrow> \<not> loaded pc)"
proof (cases e)
  case (Request r ms)
  with assms(1) have "sys' = \<lparr> sh = sh sys, gs = gs sys @ [HandlerG H_requests_Add (countTotalHops r) (real_of_int ms)] \<rparr>"
    by (cases sys) (simp add: step_def)
  then show ?thesis by (intro exI [of _ "HandlerG H_requests_Add (countTotalHops r) (real_of_int ms)"]) simp
next
  case (StatsRequest i)
  with assms(1) have "sys' = \<lparr> sh = sh sys, gs = gs sys @ [StatsG S_RLock i stats_locals_init] \<rparr>"
    and "0 < uptime (env i)"
    by (cases sys; simp add: step_def split: if_splits)+
  then show ?thesis
    by (intro exI [of _ "StatsG S_RLock i stats_locals_init"])
       (simp add: stats_locals_init_def loaded_def)
next
  case (DebugRequest r addr)
  with assms(1) have "sys' = \<lparr> sh = sh sys, gs = gs sys @ [DebugG r addr None] \<rparr>"
    by (cases sys) (simp add: step_def)
  then show ?thesis by (intro exI [of _ "DebugG r addr None"]) simp
next
  case (Run k)
  with assms(2) show ?thesis by simp
qed

lemma inv_mu_append:
  assumes "inv_mu sys" "\<not> in_cs g" "\<not> reading g"
  shows "inv_mu \<lparr> sh = sh sys, gs = gs sys @ [g] \<rparr>"
  using assms unfolding inv_mu_def
  by (auto simp: nth_append less_Suc_eq)

lemma inv_mu_update:
  assumes inv: "inv_mu sys" and k: "k < length (gs sys)"
    and cs: "in_cs g' \<Longrightarrow> in_cs (gs sys ! k) \<or> (\<not> mu_w (sh sys) \<and> w')"
    and w: "w' \<Longrightarrow> mu_w (sh sys) \<or> (in_cs g' \<and> mu_r (sh sys) = 0)"
    and w2: "mu_w (sh sys) \<Longrightarrow> \<not> w' \<Longrightarrow> in_cs (gs sys ! k) \<and> \<not> in_cs g'"
    and r: "r' + (if reading (gs sys ! k) then 1 else 0) = mu_r (sh sys) + (if reading g' then 1 else 0)"
    and rw: "reading g' \<Longrightarrow> \<not> reading (gs sys ! k) \<Longrightarrow> \<not> w'"
    and s': "mu_w s' = w'" "mu_r s' = r'"
  shows "inv_mu \<lparr> sh = s', gs = (gs sys)[k := g'] \<rparr>"
proof -
  let ?G = "gs sys" and ?G' = "(gs sys)[k := g']"
  have old: "\<And>j. j < length ?G \<Longrightarrow> in_cs (?G ! j) \<Longrightarrow> mu_w (sh sys)"
    and uniq: "\<And>j j'. j < length ?G \<Longrightarrow> j' < length ?G \<Longrightarrow> in_cs (?G ! j) \<Longrightarrow> in_cs (?G ! j') \<Longrightarrow> j = j'"
    and cnt: "mu_r (sh sys) = length (filter reading ?G)"
    and excl: "mu_w (sh sys) \<Longrightarrow> mu_r (sh sys) = 0"
    using inv unfolding inv_mu_def by auto
  have nth: "\<And>j. j < length ?G \<Longrightarrow> ?G' ! j = (if j = k then g' else ?G ! j)"
    by (simp add: nth_list_update)
  have c1: "\<forall>j < length ?G'. in_cs (?G' ! j) \<longrightarrow> w'"
  proof (intro allI impI)
    fix j assume j: "j < length ?G'" and c: "in_cs (?G' ! j)"
    show "w'"
    proof (cases "j = k")
      case True
      with c j have "in_cs g'" by simp
      from cs [OF this] show ?thesis
      proof
        assume "in_cs (?G ! k)"
        then have "mu_w (sh sys)" using old k by blast
        then show ?thesis using w2 \<open>in_cs g'\<close> by blast
      qed simp
    next
      case False
      with c j have cj: "in_cs (?G ! j)" by (simp add: nth)
      then have m: "mu_w (sh sys)" using old j by simp
      show ?thesis
      proof (rule ccontr)
        assume "\<not> w'"
        from w2 [OF m this] have "in_cs (?G ! k)" by simp
        from uniq [OF _ k cj this] j False show False by simp
      qed
    qed
  qed
  have c2: "\<forall>j < length ?G'. \<forall>j' < length ?G'. in_cs (?G' ! j) \<longrightarrow> in_cs (?G' ! j') \<longrightarrow> j = j'"
  proof (intro allI impI)
    fix j j' assume j: "j < length ?G'" "j' < length ?G'" and c: "in_cs (?G' ! j)" "in_cs (?G' ! j')"
    have key: "\<And>i. i < length ?G \<Longrightarrow> i \<noteq> k \<Longrightarrow> in_cs (?G ! i) \<Longrightarrow> in_cs g' \<Longrightarrow> False"
    proof -
      fix i assume i: "i < length ?G" "i \<noteq> k" "in_cs (?G ! i)" "in_cs g'"
      from cs [OF i(4)] show False
      proof
        assume "in_cs (?G ! k)"
        from uniq [OF i(1) k i(3) this] i(2) show False by simp
      next
        assume "\<not> mu_w (sh sys) \<and> w'"
        then show False using old [OF i(1) i(3)] by simp
      qed
    qed
    show "j = j'"
    proof (cases "j = k"; cases "j' = k")
      assume "j = k" "j' \<noteq> k"
      then show ?thesis using key [of j'] c j by (simp add: nth)
    next
      assume "j \<noteq> k" "j' = k"
      then show ?thesis using key [of j] c j by (simp add: nth)
    next
      assume "j \<noteq> k" "j' \<noteq> k"
      then show ?thesis using uniq [of j j'] c j by (simp add: nth)
    qed simp
  qed
  have c3: "r' = length (filter reading ?G')"
    using filter_update_count [OF k, of reading g'] r cnt by (auto split: if_splits)
  have c4: "w' \<longrightarrow> r' = 0"
  proof
    assume w': "w'"
    from w [OF this] have z: "mu_r (sh sys) = 0" using excl by blast
    then have "\<not> reading (?G ! k)"
      using cnt k by (auto simp: filter_empty_conv)
    then show "r' = 0" using r z rw w' by (auto split: if_splits)
  qed
  show ?thesis unfolding inv_mu_def using c1 c2 c3 c4 s' by simp
qed

lemma filter_pos:
  assumes "k < length xs" "P (xs ! k)"
  shows "0 < length (filter P xs)"
  using assms by (auto simp: filter_empty_conv)

lemma inv_mu_handler:
  assumes inv: "inv_mu sys" and k: "k < length (gs sys)" and g: "gs sys ! k = HandlerG pc hops lat"
    and st: "handler_step pc hops lat (sh sys) = Some (s', pc')"
  shows "inv_mu \<lparr> sh = s', gs = (gs sys)[k := HandlerG pc' hops lat] \<rparr>"
proof (rule inv_mu_update [OF inv k, where w' = "mu_w s'" and r' = "mu_r s'"])
  show "in_cs (HandlerG pc' hops lat) \<Longrightarrow> in_cs (gs sys ! k) \<or> (\<not> mu_w (sh sys) \<and> mu_w s')"
    using st g by (cases pc) (auto simp: handler_stmts split: if_splits sum.splits list.splits)
  show "mu_w s' \<Longrightarrow> mu_w (sh sys) \<or> (in_cs (HandlerG pc' hops lat) \<and> mu_r (sh sys) = 0)"
    using st g by (cases pc) (auto simp: handler_stmts split: if_splits sum.splits list.splits)
  show "mu_w (sh sys) \<Longrightarrow> \<not> mu_w s' \<Longrightarrow> in_cs (gs sys ! k) \<and> \<not> in_cs (HandlerG pc' hops lat)"
    using st g by (cases pc) (auto simp: handler_stmts split: if_splits sum.splits list.splits)
  show "mu_r s' + (if reading (gs sys ! k) then 1 else 0)
      = mu_r (sh sys) + (if reading (HandlerG pc' hops lat) then 1 else 0)"
    using st g by (cases pc) (auto simp: handler_stmts split: if_splits sum.splits list.splits)
  show "reading (HandlerG pc' hops lat) \<Longrightarrow> \<not> reading (gs sys ! k) \<Longrightarrow> \<not> mu_w s'"
    by simp
qed simp_all

lemma inv_mu_stats:
  assumes inv: "inv_mu sys" and k: "k < length (gs sys)" and g: "gs sys ! k = StatsG pc i l"
    and st: "stats_step pc i l (sh sys) = Some (s', pc', l')"
  shows "inv_mu \<lparr> sh = s', gs = (gs sys)[k := StatsG pc' i l'] \<rparr>"
proof (rule inv_mu_update [OF inv k, where w' = "mu_w s'" and r' = "mu_r s'"])
  have pos: "reading (gs sys ! k) \<Longrightarrow> 0 < mu_r (sh sys)"
    using inv k filter_pos [of k "gs sys" reading] by (simp add: inv_mu_def)
  have w: "mu_w s' = mu_w (sh sys)"
    using st by (cases pc) (auto simp: istio_write_def Let_def split: if_splits prod.splits)
  show "in_cs (StatsG pc' i l') \<Longrightarrow> in_cs (gs sys ! k) \<or> (\<not> mu_w (sh sys) \<and> mu_w s')"
    by simp
  show "mu_w s' \<Longrightarrow> mu_w (sh sys) \<or> (in_cs (StatsG pc' i l') \<and> mu_r (sh sys) = 0)"
    using w by simp
  show "mu_w (sh sys) \<Longrightarrow> \<not> mu_w s' \<Longrightarrow> in_cs (gs sys ! k) \<and> \<not> in_cs (StatsG pc' i l')"
    using w by simp
  show "mu_r s' + (if reading (gs sys ! k) then 1 else 0)
      = mu_r (sh sys) + (if reading (StatsG pc' i l') then 1 else 0)"
    using st g pos
    by (cases pc) (auto simp: istio_write_def Let_def split: if_splits prod.splits)
  show "reading (StatsG pc' i l') \<Longrightarrow> \<not> reading (gs sys ! k) \<Longrightarrow> \<not> mu_w s'"
    using st g by (cases pc) (auto simp: istio_write_def Let_def split: if_splits prod.splits)
qed simp_all

lemma inv_mu_debug:
  assumes inv: "inv_mu sys" and k: "k < length (gs sys)" and g: "gs sys ! k = DebugG r addr out"
  shows "inv_mu \<lparr> sh = sh sys, gs = (gs sys)[k := DebugG r addr out'] \<rparr>"
  by (rule inv_mu_update [OF inv k, where w' = "mu_w (sh sys)" and r' = "mu_r (sh sys)"])
    (simp_all add: g)

lemma inv_mu_step:
  assumes "inv_mu sys" "step e sys = Some sys'"
  shows "inv_mu sys'"
proof (cases "\<exists>k. e = Run k")
  case True
  then obtain k where e: "e = Run k" by blast
  from assms(2) [unfolded e] show ?thesis
  proof (cases rule: step_Run_cases)
    case (handler pc hops lat s' pc')
    then show ?thesis using inv_mu_handler [OF assms(1)] by simp
  next
    case (stats pc i l s' pc' l')
    then show ?thesis using inv_mu_stats [OF assms(1)] by simp
  next
    case (debug r addr)
    then show ?thesis using inv_mu_debug [OF assms(1)] by simp
  qed
next
  case False
  with step_new_cases [OF assms(2)] obtain g where
    "sys' = \<lparr> sh = sh sys, gs = gs sys @ [g] \<rparr>" "\<not> in_cs g" "\<not> reading g" by blast
  then show ?thesis using inv_mu_append [OF assms(1)] by simp
qed

lemma inv_mu_init: "inv_mu system_init"
  by (simp add: inv_mu_def system_init_def main_init_def)

lemma lastN_snoc: "lastN n xs @ [x] = lastN (Suc n) (xs @ [x])"
  by (cases "length xs \<le> n") (auto simp: lastN_def Suc_diff_le)

lemma lastN_snoc_1000: "lastN 1000 xs @ [x] = lastN 1001 (xs @ [x])"
  using lastN_snoc [of 1000 xs x] by simp

lemma tl_lastN: "n < length xs \<Longrightarrow> tl (lastN (Suc n) xs) = lastN n xs"
  by (simp add: lastN_def drop_Suc [symmetric] tl_drop Suc_diff_Suc)

lemma lastN_all: "length xs \<le> n \<Longrightarrow> lastN n xs = xs"
  by (simp add: lastN_def)

lemma lastN_1001_cons:
  assumes "1000 < length xs"
  shows "\<exists>y. lastN 1001 xs = y # lastN 1000 xs"
proof -
  have "length (lastN 1001 xs) = 1001" using assms by (simp add: length_lastN)
  then obtain y ys where y: "lastN 1001 xs = y # ys" by (cases "lastN 1001 xs") auto
  have "tl (lastN (Suc 1000) xs) = lastN 1000 xs" using assms by (intro tl_lastN)
  with y show ?thesis by simp
qed

lemma g_rel_cong:
  assumes "latencies s' = latencies s" "proxyHops s' = proxyHops s"
  shows "g_rel g seen s' = g_rel g seen s"
proof (cases g)
  case (HandlerG pc hops lat)
  then show ?thesis using assms by (cases pc) (simp_all add: store_is_def)
next
  case (StatsG pc i l)
  then show ?thesis using assms by (cases pc) simp_all
qed simp

lemma snapshot_of_mono: "snapshot_of seen lc hc \<Longrightarrow> snapshot_of (seen @ xs) lc hc"
proof -
  assume "snapshot_of seen lc hc"
  then obtain m where m: "m \<le> length seen" "lc = lastN 1000 (map fst (take m seen))"
    "hc = lastN 1000 (map snd (take m seen))"
    unfolding snapshot_of_def by blast
  from m(1) have "take m (seen @ xs) = take m seen" by simp
  with m show ?thesis unfolding snapshot_of_def
    by (intro exI [of _ m]) simp
qed

lemma g_rel_idle:
  assumes "\<not> in_cs g" "\<not> reading g" "g_rel g seen s"
  shows "g_rel g (seen @ xs) s'"
proof (cases g)
  case (HandlerG pc hops lat)
  then show ?thesis using assms by (cases pc) simp_all
next
  case (StatsG pc i l)
  then show ?thesis using assms by (cases pc) (simp_all add: snapshot_of_mono)
qed simp

lemma inv_mu_alone:
  assumes "inv_mu sys" "k < length (gs sys)" "in_cs (gs sys ! k)" "j < length (gs sys)" "j \<noteq> k"
  shows "\<not> in_cs (gs sys ! j)" "\<not> reading (gs sys ! j)"
proof -
  show "\<not> in_cs (gs sys ! j)" using assms unfolding inv_mu_def by blast
  have "mu_w (sh sys)" using assms unfolding inv_mu_def by blast
  then have "mu_r (sh sys) = 0" "mu_r (sh sys) = length (filter reading (gs sys))"
    using assms(1) unfolding inv_mu_def by blast+
  then have "filter reading (gs sys) = []" by simp
  then show "\<not> reading (gs sys ! j)" using assms(4) by (auto simp: filter_empty_conv)
qed

lemma inv_store_update:
  assumes "inv_store sys seen" "k < length (gs sys)"
    and "g_rel g' seen' s'"
    and "\<And>j. j < length (gs sys) \<Longrightarrow> j \<noteq> k \<Longrightarrow> g_rel (gs sys ! j) seen (sh sys)
          \<Longrightarrow> g_rel (gs sys ! j) seen' s'"
    and "\<not> mu_w s' \<Longrightarrow> store_is 1000 1000 seen' s'"
  shows "inv_store \<lparr> sh = s', gs = (gs sys)[k := g'] \<rparr> seen'"
  using assms unfolding inv_store_def by (auto simp: nth_list_update)

lemma copy_go_same_length: "length dst = length src \<Longrightarrow> copy_go dst src = src"
  by (simp add: copy_go_def)

lemma arrival_stats: "k < length (gs sys) \<Longrightarrow> gs sys ! k = StatsG pc i l \<Longrightarrow> arrival (Run k) sys = []"
  by (simp add: arrival_def)

lemma arrival_debug: "k < length (gs sys) \<Longrightarrow> gs sys ! k = DebugG r a out \<Longrightarrow> arrival (Run k) sys = []"
  by (simp add: arrival_def)

lemma arrival_handler:
  "k < length (gs sys) \<Longrightarrow> gs sys ! k = HandlerG pc hops lat \<Longrightarrow>
   arrival (Run k) sys = (if pc = H_append_latencies then [(lat, hops)] else [])"
  by (cases pc) (simp_all add: arrival_def)

lemma inv_store_stats:
  assumes mu: "inv_mu sys" and inv: "inv_store sys seen" and k: "k < length (gs sys)"
    and g: "gs sys ! k = StatsG pc i l"
    and st: "stats_step pc i l (sh sys) = Some (s', pc', l')"
  shows "inv_store \<lparr> sh = s', gs = (gs sys)[k := StatsG pc' i l'] \<rparr> seen"
proof (rule inv_store_update [OF inv k])
  have store: "latencies s' = latencies (sh sys)" "proxyHops s' = proxyHops (sh sys)" "mu_w s' = mu_w (sh sys)"
    using st by (cases pc; auto simp: istio_write_def Let_def split: if_splits prod.splits)+
  have own: "rd_rel pc l seen (sh sys)"
    using inv k g unfolding inv_store_def by (metis g_rel.simps(2))
  have free: "reading (gs sys ! k) \<Longrightarrow> store_is 1000 1000 seen (sh sys)"
  proof -
    assume "reading (gs sys ! k)"
    then have "0 < mu_r (sh sys)" using mu k filter_pos [of k "gs sys" reading] by (simp add: inv_mu_def)
    then have "\<not> mu_w (sh sys)" using mu unfolding inv_mu_def by auto
    then show ?thesis using inv unfolding inv_store_def by blast
  qed
  show "g_rel (StatsG pc' i l') seen s'"
  proof (cases "pc = S_RUnlock")
    case True
    with free g have "store_is 1000 1000 seen (sh sys)" by simp
    with own True have "snapshot_of seen (latenciesCopy l) (proxyHopsCopy l)"
      unfolding snapshot_of_def store_is_def by (intro exI [of _ "length seen"]) simp
    then show ?thesis using st True by auto
  next
    case False
    then show ?thesis using st own
      by (cases pc) (auto simp: istio_write_def Let_def copy_go_same_length split: if_splits prod.splits)
  qed
  show "\<And>j. j < length (gs sys) \<Longrightarrow> j \<noteq> k \<Longrightarrow> g_rel (gs sys ! j) seen (sh sys) \<Longrightarrow> g_rel (gs sys ! j) seen s'"
    using g_rel_cong [OF store(1,2)] by simp
  show "\<not> mu_w s' \<Longrightarrow> store_is 1000 1000 seen s'"
    using inv store unfolding inv_store_def store_is_def by simp
qed

lemma inv_store_handler:
  assumes mu: "inv_mu sys" and inv: "inv_store sys seen" and k: "k < length (gs sys)"
    and g: "gs sys ! k = HandlerG pc hops lat"
    and st: "handler_step pc hops lat (sh sys) = Some (s', pc')"
  shows "inv_store \<lparr> sh = s', gs = (gs sys)[k := HandlerG pc' hops lat] \<rparr> (seen @ arrival (Run k) sys)"
proof -
  have own: "cs_rel pc hops lat seen (sh sys)"
    using inv k g unfolding inv_store_def by (metis g_rel.simps(1))
  have base: "\<not> mu_w (sh sys) \<Longrightarrow> store_is 1000 1000 seen (sh sys)"
    using inv unfolding inv_store_def by blast
  have held: "in_cs (gs sys ! k) \<Longrightarrow> mu_w (sh sys)"
    using mu k unfolding inv_mu_def by blast
  have arr: "arrival (Run k) sys = (if pc = H_append_latencies then [(lat, hops)] else [])"
    by (rule arrival_handler [OF k g])
  show ?thesis
  proof (cases "in_cs (gs sys ! k)")
    case False
    then have pcs: "pc = H_requests_Add \<or> pc = H_requestsViaProxy_Add \<or> pc = H_Lock"
      using g st by (cases pc) auto
    then have store: "latencies s' = latencies (sh sys)" "proxyHops s' = proxyHops (sh sys)"
      using st by (auto simp: handler_stmts split: if_splits)
    have a0: "arrival (Run k) sys = []" using arr pcs by auto
    show ?thesis unfolding a0 append_Nil2
    proof (rule inv_store_update [OF inv k])
      show "g_rel (HandlerG pc' hops lat) seen s'"
        using pcs st base by (auto simp: handler_stmts store_is_def split: if_splits)
      show "\<And>j. j < length (gs sys) \<Longrightarrow> j \<noteq> k \<Longrightarrow> g_rel (gs sys ! j) seen (sh sys) \<Longrightarrow> g_rel (gs sys ! j) seen s'"
        using g_rel_cong [OF store] by simp
      show "\<not> mu_w s' \<Longrightarrow> store_is 1000 1000 seen s'"
        using pcs st base by (auto simp: handler_stmts store_is_def split: if_splits)
    qed
  next
    case True
    note w = held [OF True]
    show ?thesis
    proof (rule inv_store_update [OF inv k])
      show "\<And>j. j < length (gs sys) \<Longrightarrow> j \<noteq> k \<Longrightarrow> g_rel (gs sys ! j) seen (sh sys)
          \<Longrightarrow> g_rel (gs sys ! j) (seen @ arrival (Run k) sys) s'"
        using inv_mu_alone [OF mu k True] g_rel_idle by blast
      show "g_rel (HandlerG pc' hops lat) (seen @ arrival (Run k) sys) s'"
      proof (cases pc)
        case H_append_latencies
        then show ?thesis using st own arr
          by (auto simp: handler_stmts store_is_def lastN_snoc_1000)
      next
        case H_append_proxyHops
        with own have "seen \<noteq> []" "last seen = (lat, hops)"
          by simp_all
        then obtain ys where ys: "seen = ys @ [(lat, hops)]"
          by (metis append_butlast_last_id)
        have "lastN 1000 (map snd (butlast seen)) @ [hops] = lastN 1001 (map snd seen)"
          unfolding ys by (simp add: lastN_snoc_1000)
        then show ?thesis using st own arr H_append_proxyHops
          by (auto simp: handler_stmts store_is_def)
      next
        case H_len
        have "length (latencies (sh sys)) = min 1001 (length seen)"
          using own H_len by (simp add: store_is_def length_lastN)
        then show ?thesis using st own arr H_len
          by (auto simp: store_is_def lastN_all split: if_splits)
      next
        case H_slice_latencies
        with own obtain y where "latencies (sh sys) = y # lastN 1000 (map fst seen)"
          using lastN_1001_cons [of "map fst seen"] by (auto simp: store_is_def)
        then show ?thesis using st own arr H_slice_latencies
          by (auto simp: handler_stmts store_is_def)
      next
        case H_slice_proxyHops
        with own obtain y where "proxyHops (sh sys) = y # lastN 1000 (map snd seen)"
          using lastN_1001_cons [of "map snd seen"] by (auto simp: store_is_def)
        then show ?thesis using st own arr H_slice_proxyHops
          by (auto simp: handler_stmts store_is_def)
      next
        case H_Unlock
        then show ?thesis using st own arr by auto
      qed (use True g st in auto)
      show "\<not> mu_w s' \<Longrightarrow> store_is 1000 1000 (seen @ arrival (Run k) sys) s'"
      proof (cases "pc = H_Unlock")
        case True
        then show ?thesis using st own arr by (auto simp: store_is_def)
      next
        case False
        then have "mu_w s'" using w st \<open>in_cs (gs sys ! k)\<close> g
          by (cases pc) (auto simp: handler_stmts split: if_splits sum.splits list.splits)
        then show "\<not> mu_w s' \<Longrightarrow> ?thesis" by simp
      qed
    qed
  qed
qed

lemma inv_store_step:
  assumes "inv_mu sys" "inv_store sys seen" "step e sys = Some sys'"
  shows "inv_store sys' (seen @ arrival e sys)"
proof (cases "\<exists>k. e = Run k")
  case True
  then obtain k where e: "e = Run k" by blast
  from assms(3) [unfolded e] show ?thesis
  proof (cases rule: step_Run_cases)
    case (handler pc hops lat s' pc')
    then show ?thesis using inv_store_handler [OF assms(1,2)] e by simp
  next
    case (stats pc i l s' pc' l')
    then show ?thesis using inv_store_stats [OF assms(1,2)] arrival_stats e by simp
  next
    case (debug r addr)
    have "inv_store \<lparr> sh = sh sys, gs = (gs sys)[k := DebugG r addr (Some (debugHeadersHandler r addr))] \<rparr> seen"
      using assms(2) debug(1) by (intro inv_store_update) (auto simp: inv_store_def)
    then show ?thesis using debug arrival_debug e by simp
  qed
next
  case False
  then have a: "arrival e sys = []" by (cases e) (simp_all add: arrival_def)
  from False step_new_cases [OF assms(3)] obtain g where
    g: "sys' = \<lparr> sh = sh sys, gs = gs sys @ [g] \<rparr>" "\<forall>seen s. g_rel g seen s" by blast
  show ?thesis using assms(2) g unfolding a inv_store_def
    by (auto simp: nth_append less_Suc_eq)
qed

lemma inv_store_init: "inv_store system_init []"
  by (simp add: inv_store_def system_init_def main_init_def store_is_def lastN_def)

lemma inv_counters_update:
  assumes inv: "inv_counters sys" and k: "k < length (gs sys)"
    and rq: "requests s' = requests (sh sys) + (if past_requests_Add g' \<and> \<not> past_requests_Add (gs sys ! k) then 1 else 0)"
      "past_requests_Add (gs sys ! k) \<Longrightarrow> past_requests_Add g'"
    and via: "requestsViaProxy s' = requestsViaProxy (sh sys)
         + (if past_requestsViaProxy_Add g' \<and> \<not> past_requestsViaProxy_Add (gs sys ! k) then 1 else 0)"
      "past_requestsViaProxy_Add (gs sys ! k) \<Longrightarrow> past_requestsViaProxy_Add g'"
    and er: "errors s' = errors (sh sys)"
    and own: "stats_rel (gs sys ! k) \<Longrightarrow> errors (sh sys) = 0 \<Longrightarrow> stats_rel g'"
  shows "inv_counters \<lparr> sh = s', gs = (gs sys)[k := g'] \<rparr>"
proof -
  have c1: "requests s' = of_nat (length (filter past_requests_Add ((gs sys)[k := g'])))"
    using filter_update_count [OF k, of past_requests_Add g'] rq inv
    by (auto simp: inv_counters_def split: if_splits)
  have c2: "requestsViaProxy s' = of_nat (length (filter past_requestsViaProxy_Add ((gs sys)[k := g'])))"
    using filter_update_count [OF k, of past_requestsViaProxy_Add g'] via inv
    by (auto simp: inv_counters_def split: if_splits)
  have c3: "\<forall>j < length ((gs sys)[k := g']). stats_rel ((gs sys)[k := g'] ! j)"
    using inv own k by (auto simp: inv_counters_def nth_list_update)
  show ?thesis unfolding inv_counters_def using c1 c2 c3 er inv
    by (simp add: inv_counters_def)
qed

lemma inv_counters_handler:
  assumes inv: "inv_counters sys" and k: "k < length (gs sys)" and g: "gs sys ! k = HandlerG pc hops lat"
    and st: "handler_step pc hops lat (sh sys) = Some (s', pc')"
  shows "inv_counters \<lparr> sh = s', gs = (gs sys)[k := HandlerG pc' hops lat] \<rparr>"
  by (rule inv_counters_update [OF inv k]; use st g in \<open>cases pc\<close>)
     (auto simp: handler_stmts split: if_splits sum.splits list.splits)

lemma inv_counters_stats:
  assumes inv: "inv_counters sys" and k: "k < length (gs sys)" and g: "gs sys ! k = StatsG pc i l"
    and st: "stats_step pc i l (sh sys) = Some (s', pc', l')"
  shows "inv_counters \<lparr> sh = s', gs = (gs sys)[k := StatsG pc' i l'] \<rparr>"
  by (rule inv_counters_update [OF inv k]; use st g in \<open>cases pc\<close>)
     (auto simp: istio_write_def Let_def split: if_splits prod.splits)

lemma inv_counters_step:
  assumes "inv_counters sys" "step e sys = Some sys'"
  shows "inv_counters sys'"
proof (cases "\<exists>k. e = Run k")
  case True
  then obtain k where e: "e = Run k" by blast
  from assms(2) [unfolded e] show ?thesis
  proof (cases rule: step_Run_cases)
    case (handler pc hops lat s' pc')
    then show ?thesis using inv_counters_handler [OF assms(1)] by simp
  next
    case (stats pc i l s' pc' l')
    then show ?thesis using inv_counters_stats [OF assms(1)] by simp
  next
    case (debug r addr)
    have "inv_counters \<lparr> sh = sh sys, gs = (gs sys)[k := DebugG r addr (Some (debugHeadersHandler r addr))] \<rparr>"
      using debug(1,2) by (intro inv_counters_update [OF assms(1)]) auto
    then show ?thesis using debug by simp
  qed
next
  case False
  with step_new_cases [OF assms(2)] obtain g where
    g: "sys' = \<lparr> sh = sh sys, gs = gs sys @ [g] \<rparr>" "\<not> past_requests_Add g"
      "\<not> past_requestsViaProxy_Add g" "stats_rel g" by blast
  show ?thesis using assms(1) g unfolding inv_counters_def
    by (auto simp: nth_append less_Suc_eq)
qed

lemma inv_counters_init: "inv_counters system_init"
  by (simp add: inv_counters_def system_init_def main_init_def)

lemma run_inv:
  assumes "run es (sys0, seen0) = Some (sys, seen)" "inv_mu sys0" "inv_store sys0 seen0" "inv_counters sys0"
  shows "inv_mu sys \<and> inv_store sys seen \<and> inv_counters sys"
  using assms
proof (induction es arbitrary: sys0 seen0)
  case Nil
  then show ?case by simp
next
  case (Cons e es)
  from Cons.prems(1) obtain sys1 where s1: "step e sys0 = Some sys1"
    and r: "run es (sys1, seen0 @ arrival e sys0) = Some (sys, seen)"
    by (auto split: option.splits)
  show ?case
    by (rule Cons.IH [OF r inv_mu_step [OF Cons.prems(2) s1]
          inv_store_step [OF Cons.prems(2,3) s1] inv_counters_step [OF Cons.prems(4) s1]])
qed

lemma reaches_inv:
  assumes "reaches es sys seen"
  shows "inv_mu sys" "inv_store sys seen" "inv_counters sys"
  using run_inv [OF assms [unfolded reaches_def] inv_mu_init inv_store_init inv_counters_init]
  by simp_all

lemma handler_step_in_cs:
  assumes "handler_step pc hops lat s = Some (s', pc')" "cs_rel pc hops lat seen s"
    "in_cs (HandlerG pc hops lat)" "pc \<noteq> H_Unlock"
  shows "in_cs (HandlerG pc' hops lat) \<and> mu_w s' = mu_w s"
proof (cases pc)
  case H_slice_latencies
  with assms(2) obtain y where "latencies s = y # lastN 1000 (map fst seen)"
    using lastN_1001_cons [of "map fst seen"] by (auto simp: store_is_def)
  with assms(1) H_slice_latencies show ?thesis by (auto simp: handler_stmts)
next
  case H_slice_proxyHops
  with assms(2) obtain y where "proxyHops s = y # lastN 1000 (map snd seen)"
    using lastN_1001_cons [of "map snd seen"] by (auto simp: store_is_def)
  with assms(1) H_slice_proxyHops show ?thesis by (auto simp: handler_stmts)
qed (use assms in \<open>auto simp: handler_stmts split: if_splits\<close>)

lemma handler_step_outside:
  assumes "handler_step pc hops lat s = Some (s', pc')" "\<not> in_cs (HandlerG pc hops lat)"
  shows "(pc = H_Lock \<and> in_cs (HandlerG pc' hops lat))
     \<or> (mu_w s' = mu_w s \<and> \<not> in_cs (HandlerG pc' hops lat))"
  using assms by (cases pc) (auto simp: handler_stmts split: if_splits)

lemma stats_step_mu_w:
  assumes "stats_step pc i l s = Some (s', pc', l')"
  shows "mu_w s' = mu_w s"
  using assms by (cases pc) (auto simp: istio_write_def Let_def split: if_splits prod.splits)

lemma inv_held_other:
  assumes "inv_held sys" "k < length (gs sys)" "\<not> in_cs (gs sys ! k)" "mu_w s' = mu_w (sh sys)"
  shows "inv_held \<lparr> sh = s', gs = (gs sys)[k := g'] \<rparr>"
proof -
  have "\<exists>j < length (gs sys). in_cs ((gs sys)[k := g'] ! j)" if "mu_w (sh sys)"
  proof -
    from that assms(1) obtain j where j: "j < length (gs sys)" "in_cs (gs sys ! j)"
      unfolding inv_held_def by blast
    with assms(3) have "j \<noteq> k" by blast
    with j show ?thesis by (intro exI [of _ j]) simp
  qed
  then show ?thesis using assms(4) by (simp add: inv_held_def)
qed

lemma inv_held_self:
  assumes "k < length (gs sys)" "in_cs g'"
  shows "inv_held \<lparr> sh = s', gs = (gs sys)[k := g'] \<rparr>"
  using assms unfolding inv_held_def by (auto intro!: exI [of _ k])

lemma inv_held_step:
  assumes "inv_store sys seen" "inv_held sys" "step e sys = Some sys'"
  shows "inv_held sys'"
proof (cases "\<exists>k. e = Run k")
  case True
  then obtain k where e: "e = Run k" by blast
  from assms(3) [unfolded e] show ?thesis
  proof (cases rule: step_Run_cases)
    case (handler pc hops lat s' pc')
    have rel: "cs_rel pc hops lat seen (sh sys)"
      using assms(1) handler(1,2) unfolding inv_store_def by (metis g_rel.simps(1))
    show ?thesis
    proof (cases "in_cs (HandlerG pc hops lat)")
      case True
      show ?thesis
      proof (cases "pc = H_Unlock")
        case True
        with handler(3) have "\<not> mu_w s'" by auto
        then show ?thesis using handler(4) by (simp add: inv_held_def)
      next
        case False
        from handler_step_in_cs [OF handler(3) rel True False]
        have "in_cs (HandlerG pc' hops lat)" by blast
        from inv_held_self [OF handler(1) this] show ?thesis unfolding handler(4) .
      qed
    next
      case False
      from handler_step_outside [OF handler(3) False] show ?thesis
      proof
        assume "pc = H_Lock \<and> in_cs (HandlerG pc' hops lat)"
        then have "in_cs (HandlerG pc' hops lat)" by blast
        from inv_held_self [OF handler(1) this] show ?thesis unfolding handler(4) .
      next
        assume "mu_w s' = mu_w (sh sys) \<and> \<not> in_cs (HandlerG pc' hops lat)"
        then show ?thesis using handler False inv_held_other [OF assms(2)] by simp
      qed
    qed
  next
    case (stats pc i l s' pc' l')
    then show ?thesis using inv_held_other [OF assms(2)] stats_step_mu_w [OF stats(3)] by simp
  next
    case (debug r addr)
    then show ?thesis using inv_held_other [OF assms(2)] by simp
  qed
next
  case False
  with step_new_cases [OF assms(3)] obtain g where
    g: "sys' = \<lparr> sh = sh sys, gs = gs sys @ [g] \<rparr>" by blast
  have "\<exists>j < Suc (length (gs sys)). in_cs ((gs sys @ [g]) ! j)" if "mu_w (sh sys)"
  proof -
    from that assms(2) obtain j where j: "j < length (gs sys)" "in_cs (gs sys ! j)"
      unfolding inv_held_def by blast
    then show ?thesis by (intro exI [of _ j]) (simp add: nth_append)
  qed
  then show ?thesis using g by (simp add: inv_held_def)
qed

lemma run_inv_held:
  assumes "run es (sys0, seen0) = Some (sys, seen)" "inv_mu sys0" "inv_store sys0 seen0" "inv_held sys0"
  shows "inv_held sys"
  using assms
proof (induction es arbitrary: sys0 seen0)
  case Nil
  then show ?case by simp
next
  case (Cons e es)
  from Cons.prems(1) obtain sys1 where s1: "step e sys0 = Some sys1"
    and r: "run es (sys1, seen0 @ arrival e sys0) = Some (sys, seen)"
    by (auto split: option.splits)
  show ?case
    by (rule Cons.IH [OF r inv_mu_step [OF Cons.prems(2) s1]
          inv_store_step [OF Cons.prems(2,3) s1] inv_held_step [OF Cons.prems(3,4) s1]])
qed

lemma reaches_inv_held:
  assumes "reaches es sys seen"
  shows "inv_held sys"
  using run_inv_held [OF assms [unfolded reaches_def] inv_mu_init inv_store_init]
  by (simp add: inv_held_def system_init_def main_init_def)

section \<open>A goroutine run alone\<close>

lemma shared_mu_w_same: "\<not> mu_w s \<Longrightarrow> s\<lparr> mu_w := False \<rparr> = s"
  by (cases s) simp

lemma handler_alone:
  assumes "\<not> mu_w s" "mu_r s = 0" "length (latencies s) < 1000"
  shows "\<exists>s'. handler r ms s = Inr s'
     \<and> run [Request r ms, Run (length G), Run (length G), Run (length G), Run (length G),
             Run (length G), Run (length G), Run (length G)]
          (\<lparr> sh = s, gs = G \<rparr>, seen)
        = Some (\<lparr> sh = s', gs = G @ [HandlerG H_done (countTotalHops r) (real_of_int ms)] \<rparr>,
                seen @ [(real_of_int ms, countTotalHops r)])"
  using assms
  by (cases s) (simp add: handler_def Let_def step_def arrival_def handler_stmts)

lemma handler_alone_full:
  assumes "\<not> mu_w s" "mu_r s = 0" "length (latencies s) = 1000" "length (proxyHops s) = 1000"
  shows "\<exists>s'. handler r ms s = Inr s'
     \<and> run [Request r ms, Run (length G), Run (length G), Run (length G), Run (length G),
             Run (length G), Run (length G), Run (length G), Run (length G), Run (length G)]
          (\<lparr> sh = s, gs = G \<rparr>, seen)
        = Some (\<lparr> sh = s', gs = G @ [HandlerG H_done (countTotalHops r) (real_of_int ms)] \<rparr>,
                seen @ [(real_of_int ms, countTotalHops r)])"
proof -
  from assms(3) obtain x xs where l: "latencies s = x # xs" by (cases "latencies s") auto
  from assms(4) obtain y ys where h: "proxyHops s = y # ys" by (cases "proxyHops s") auto
  from l h assms(3,4) have n: "length xs = 999" "length ys = 999" by auto
  show ?thesis using assms(1,2) l h n
    by (cases s) (simp add: handler_def Let_def step_def arrival_def handler_stmts)
qed

lemma istioSidecarPresent_alone:
  assumes "\<not> hasIstioHeaders (req i)"
  shows "case istioSidecarPresent (check_now i) (dial_answer i) (store_now i) s of
      (b, s', t) \<Rightarrow>
        (if fst (istio_read (check_now i) s) then
           stats_step S_istio_read i l s = Some (s', S_encode, l\<lparr> istioDetected := b \<rparr>) \<and> t = []
         else
           stats_step S_istio_read i l s = Some (s, S_probe, l)
           \<and> (case stats_step S_probe i l s of
                 None \<Rightarrow> False
               | Some (s1, pc1, l1) \<Rightarrow>
                   s1 = s \<and> pc1 = S_istio_write \<and> dialled l1 = dialled l @ t
                   \<and> stats_step S_istio_write i l1 s
                       = Some (s', S_encode, l1\<lparr> istioDetected := b \<rparr>)))"
  using assms
  by (auto simp: istioSidecarPresent_def Let_def split: prod.splits)

section \<open>Facts about schedules\<close>

lemma zip_lastN: "zip (lastN n (map fst xs)) (lastN n (map snd xs)) = lastN n xs"
  by (simp add: lastN_def drop_zip [symmetric] zip_map_fst_snd)

lemma Get_empty: "Get Map.empty k = []"
  by (simp add: Get_def)

lemma countTotalHops_empty: "countTotalHops Map.empty = 0"
  by (simp add: countTotalHops_def countProxyHops_def countServiceMeshHops_def Get_empty)

lemma hasIstioHeaders_empty: "\<not> hasIstioHeaders Map.empty"
  by (simp add: hasIstioHeaders_def Get_empty)

lemma rd_rel_copied:
  assumes "rd_rel pc l seen s" "\<not> mu_w s \<longrightarrow> store_is 1000 1000 seen s" "reading (StatsG pc i l) \<longrightarrow> \<not> mu_w s"
    "pc \<notin> {S_RLock, S_make_latenciesCopy, S_make_proxyHopsCopy, S_copy_latencies, S_copy_proxyHops}"
  shows "snapshot_of seen (latenciesCopy l) (proxyHopsCopy l)"
proof (cases "pc = S_RUnlock")
  case True
  with assms have "store_is 1000 1000 seen s" "latenciesCopy l = latencies s" "proxyHopsCopy l = proxyHops s"
    by simp_all
  then show ?thesis unfolding snapshot_of_def store_is_def
    by (intro exI [of _ "length seen"]) simp
next
  case False
  with assms(1,4) show ?thesis by (cases pc) simp_all
qed

lemma snapshot_of_aligned:
  assumes "snapshot_of seen lc hc"
  shows "length lc = length hc \<and> length lc \<le> 1000
    \<and> (\<exists>m \<le> length seen. zip lc hc = lastN 1000 (take m seen))"
proof -
  from assms obtain m where m: "m \<le> length seen" "lc = lastN 1000 (map fst (take m seen))"
    "hc = lastN 1000 (map snd (take m seen))"
    unfolding snapshot_of_def by blast
  then have "zip lc hc = lastN 1000 (take m seen)" by (simp add: zip_lastN)
  with m show ?thesis by (auto simp: length_lastN)
qed

lemmas run_eval = reaches_def step_def arrival_def system_init_def main_init_def handler_stmts
  copy_go_def stats_locals_init_def countTotalHops_empty hasIstioHeaders_empty

lemma filter_update_mono:
  assumes "k < length xs" "P (xs ! k) \<Longrightarrow> P y"
  shows "length (filter P xs) \<le> length (filter P (xs[k := y]))"
  using filter_update_count [OF assms(1), of P y] assms(2) by (auto split: if_splits)

lemma handler_step_past:
  assumes "handler_step pc hops lat s = Some (s', pc')"
  shows "pc \<noteq> H_requests_Add \<Longrightarrow> pc' \<noteq> H_requests_Add"
    "pc \<noteq> H_requests_Add \<Longrightarrow> pc \<noteq> H_requestsViaProxy_Add \<Longrightarrow>
       pc' \<noteq> H_requests_Add \<and> pc' \<noteq> H_requestsViaProxy_Add"
  using assms by (cases pc; auto split: if_splits sum.splits)+

lemma handler_step_counters:
  assumes "handler_step pc hops lat s = Some (s', pc')"
  shows "(requests s' = requests s \<or> requests s' = requests s + 1)
    \<and> (requestsViaProxy s' = requestsViaProxy s \<or> requestsViaProxy s' = requestsViaProxy s + 1)
    \<and> errors s' = errors s"
  using assms by (cases pc) (auto simp: handler_stmts split: if_splits sum.splits list.splits)

lemma stats_step_counters:
  assumes "stats_step pc i l s = Some (s', pc', l')"
  shows "requests s' = requests s \<and> requestsViaProxy s' = requestsViaProxy s \<and> errors s' = errors s"
  using assms by (cases pc) (auto simp: istio_write_def Let_def split: if_splits prod.splits)

lemma step_counters:
  assumes "step e sys = Some sys'"
  shows "(requests (sh sys') = requests (sh sys) \<or> requests (sh sys') = requests (sh sys) + 1)
    \<and> (requestsViaProxy (sh sys') = requestsViaProxy (sh sys)
        \<or> requestsViaProxy (sh sys') = requestsViaProxy (sh sys) + 1)
    \<and> errors (sh sys') = errors (sh sys)
    \<and> length (filter past_requests_Add (gs sys)) \<le> length (filter past_requests_Add (gs sys'))
    \<and> length (filter past_requestsViaProxy_Add (gs sys))
        \<le> length (filter past_requestsViaProxy_Add (gs sys'))"
proof (cases "\<exists>k. e = Run k")
  case True
  then obtain k where e: "e = Run k" by blast
  from assms [unfolded e] show ?thesis
  proof (cases rule: step_Run_cases)
    case (handler pc hops lat s' pc')
    have "length (filter past_requests_Add (gs sys))
        \<le> length (filter past_requests_Add ((gs sys)[k := HandlerG pc' hops lat]))"
      using handler handler_step_past(1) [OF handler(3)] by (intro filter_update_mono) auto
    moreover have "length (filter past_requestsViaProxy_Add (gs sys))
        \<le> length (filter past_requestsViaProxy_Add ((gs sys)[k := HandlerG pc' hops lat]))"
      using handler handler_step_past(2) [OF handler(3)] by (intro filter_update_mono) auto
    ultimately show ?thesis using handler handler_step_counters [OF handler(3)] by simp
  next
    case (stats pc i l s' pc' l')
    have "length (filter past_requests_Add (gs sys))
        \<le> length (filter past_requests_Add ((gs sys)[k := StatsG pc' i l']))"
      using stats by (intro filter_update_mono) auto
    moreover have "length (filter past_requestsViaProxy_Add (gs sys))
        \<le> length (filter past_requestsViaProxy_Add ((gs sys)[k := StatsG pc' i l']))"
      using stats by (intro filter_update_mono) auto
    ultimately show ?thesis using stats stats_step_counters [OF stats(3)] by simp
  next
    case (debug r addr)
    have "length (filter past_requests_Add (gs sys))
        \<le> length (filter past_requests_Add ((gs sys)[k := DebugG r addr (Some (debugHeadersHandler r addr))]))"
      using debug by (intro filter_update_mono) auto
    moreover have "length (filter past_requestsViaProxy_Add (gs sys))
        \<le> length (filter past_requestsViaProxy_Add ((gs sys)[k := DebugG r addr (Some (debugHeadersHandler r addr))]))"
      using debug by (intro filter_update_mono) auto
    ultimately show ?thesis using debug by simp
  qed
next
  case False
  with step_new_cases [OF assms] obtain g where "sys' = \<lparr> sh = sh sys, gs = gs sys @ [g] \<rparr>"
    by blast
  then show ?thesis by simp
qed

lemma past_via_imp_past_req: "past_requestsViaProxy_Add g \<Longrightarrow> past_requests_Add g"
  by (cases g) auto

lemma counters_values:
  assumes "inv_counters sys" "length (gs sys) < 2 ^ 63"
  shows "sint (requests (sh sys)) = int (length (filter past_requests_Add (gs sys)))"
    "sint (requestsViaProxy (sh sys)) = int (length (filter past_requestsViaProxy_Add (gs sys)))"
proof -
  have "length (filter past_requests_Add (gs sys)) \<le> length (gs sys)"
    "length (filter past_requestsViaProxy_Add (gs sys)) \<le> length (gs sys)"
    by simp_all
  then have "length (filter past_requests_Add (gs sys)) < 2 ^ 63"
    "length (filter past_requestsViaProxy_Add (gs sys)) < 2 ^ 63"
    using assms(2) by linarith+
  then show "sint (requests (sh sys)) = int (length (filter past_requests_Add (gs sys)))"
    "sint (requestsViaProxy (sh sys)) = int (length (filter past_requestsViaProxy_Add (gs sys)))"
    using assms(1) by (simp_all add: inv_counters_def sint_of_nat_small)
qed

lemma stats_done_response:
  assumes "inv_counters sys" "k < length (gs sys)" "gs sys ! k = StatsG S_done i l"
  shows "\<exists>st. response l = Some (Inr st)
     \<and> statsHandler_result (latenciesCopy l) (proxyHopsCopy l) (totalRequests l) 0
          (totalViaProxy l) (req i) (istioDetected l) (env i) = Inr st
     \<and> 0 < uptime (env i) \<and> SuccessRate st = 100"
proof -
  from assms have rel: "stats_rel (StatsG S_done i l)"
    unfolding inv_counters_def by metis
  then have e: "totalErrors l = 0" and u: "0 < uptime (env i)"
    and r: "response l = Some (statsHandler_result (latenciesCopy l) (proxyHopsCopy l)
      (totalRequests l) 0 (totalViaProxy l) (req i) (istioDetected l) (env i))"
    by simp_all
  obtain st where st: "statsHandler_result (latenciesCopy l) (proxyHopsCopy l) (totalRequests l) 0
          (totalViaProxy l) (req i) (istioDetected l) (env i) = Inr st"
    using statsHandler_result_Inr by blast
  have "SuccessRate st = round_go (if 0 <s totalRequests l
      then fmul (fdiv (float64_of_int (sint (totalRequests l - 0)))
                      (float64_of_int (sint (totalRequests l)))) 100
      else 100)"
    using statsHandler_result_facts [OF st] by blast
  then have "SuccessRate st = 100"
    by (cases "0 <s totalRequests l") (simp_all only: sint_self_ratio round_go_100 if_True if_False)
  with st r u show ?thesis by simp
qed

lemmas stats_run_eval = run_eval istio_read_def istio_write_def time_Since_def Second_def
  maxDuration_def plain_stats_def

lemma stats_step_loaded:
  assumes "stats_step pc i l s = Some (s', pc', l')"
  shows "loaded pc' \<longleftrightarrow> loaded pc \<or> pc = S_requests_Load"
    "pc = S_requests_Load \<Longrightarrow> totalRequests l' = requests s"
    "loaded pc \<Longrightarrow> totalRequests l' = totalRequests l"
  using assms by (cases pc; auto simp: loaded_def Let_def split: if_splits prod.splits)+

lemma load_of_snoc:
  assumes "load_of es k i v"
  shows "load_of (es @ [e]) k i v"
proof -
  from assms obtain n sys1 seen1 l1 where n: "n < length es" "es ! n = Run k"
    "reaches (take n es) sys1 seen1" "k < length (gs sys1)"
    "gs sys1 ! k = StatsG S_requests_Load i l1" "v = requests (sh sys1)"
    unfolding load_of_def by blast
  from n(1) have "n < length (es @ [e])" "(es @ [e]) ! n = es ! n" "take n (es @ [e]) = take n es"
    by (simp_all add: nth_append)
  with n show ?thesis unfolding load_of_def by metis
qed

lemma load_of_now:
  assumes "reaches es sys seen" "k < length (gs sys)" "gs sys ! k = StatsG S_requests_Load i l"
  shows "load_of (es @ [Run k]) k i (requests (sh sys))"
  unfolding load_of_def
  using assms by (intro exI [of _ "length es"] exI [of _ sys] exI [of _ seen] exI [of _ l]) simp

lemma inv_loads_step:
  assumes r: "reaches es sys seen" and inv: "inv_loads es sys" and st: "step e sys = Some sys'"
  shows "inv_loads (es @ [e]) sys'"
proof -
  have old: "load_of (es @ [e]) k i (totalRequests l)"
    if "k < length (gs sys)" "gs sys ! k = StatsG pc i l" "loaded pc" for k pc i l
    using inv that unfolding inv_loads_def by (intro load_of_snoc) blast
  show ?thesis
  proof (cases "\<exists>k. e = Run k")
    case True
    then obtain k0 where e: "e = Run k0" by blast
    from st [unfolded e] show ?thesis
    proof (cases rule: step_Run_cases)
      case (handler pc0 hops lat s' pc')
      show ?thesis unfolding inv_loads_def
      proof (intro allI impI)
        fix k pc i l
        assume k: "k < length (gs sys')" and g: "gs sys' ! k = StatsG pc i l" and p: "loaded pc"
        from k g handler have "k < length (gs sys)" "gs sys ! k = StatsG pc i l"
          by (auto simp: nth_list_update split: if_splits)
        from old [OF this p] show "load_of (es @ [e]) k i (totalRequests l)" .
      qed
    next
      case (debug r0 addr)
      show ?thesis unfolding inv_loads_def
      proof (intro allI impI)
        fix k pc i l
        assume k: "k < length (gs sys')" and g: "gs sys' ! k = StatsG pc i l" and p: "loaded pc"
        from k g debug have "k < length (gs sys)" "gs sys ! k = StatsG pc i l"
          by (auto simp: nth_list_update split: if_splits)
        from old [OF this p] show "load_of (es @ [e]) k i (totalRequests l)" .
      qed
    next
      case (stats pc0 i0 l0 s' pc' l')
      note sl = stats_step_loaded [OF stats(3)]
      show ?thesis unfolding inv_loads_def
      proof (intro allI impI)
        fix k pc i l
        assume k: "k < length (gs sys')" and g: "gs sys' ! k = StatsG pc i l" and p: "loaded pc"
        show "load_of (es @ [e]) k i (totalRequests l)"
        proof (cases "k = k0")
          case False
          with k g stats have "k < length (gs sys)" "gs sys ! k = StatsG pc i l"
            by (auto simp: nth_list_update)
          from old [OF this p] show ?thesis .
        next
          case True
          with g stats have eq: "pc = pc'" "i = i0" "l = l'" by simp_all
          from p sl(1) eq(1) have "loaded pc0 \<or> pc0 = S_requests_Load" by simp
          then show ?thesis
          proof
            assume p0: "loaded pc0"
            from old [OF stats(1,2) p0] sl(3) [OF p0] show ?thesis
              unfolding True eq by simp
          next
            assume p0: "pc0 = S_requests_Load"
            from load_of_now [OF r stats(1) stats(2) [unfolded p0]] sl(2) [OF p0]
            show ?thesis unfolding True eq e by simp
          qed
        qed
      qed
    qed
  next
    case False
    with step_new_cases [OF st] obtain g where
      g: "sys' = \<lparr> sh = sh sys, gs = gs sys @ [g] \<rparr>" "\<forall>pc i l. g = StatsG pc i l \<longrightarrow> \<not> loaded pc"
      by blast
    show ?thesis unfolding inv_loads_def
    proof (intro allI impI)
      fix k pc i l
      assume k: "k < length (gs sys')" and gk: "gs sys' ! k = StatsG pc i l" and p: "loaded pc"
      from k gk p g have "k < length (gs sys)" "gs sys ! k = StatsG pc i l"
        by (auto simp: nth_append less_Suc_eq split: if_splits)
      from old [OF this p] show "load_of (es @ [e]) k i (totalRequests l)" .
    qed
  qed
qed

lemma reaches_snoc:
  assumes "reaches (es @ [e]) sys' seen'"
  obtains sys seen where "reaches es sys seen" "step e sys = Some sys'"
  using assms unfolding reaches_def run_snoc by (auto split: option.splits)

lemma reaches_inv_loads:
  assumes "reaches es sys seen"
  shows "inv_loads es sys"
  using assms
proof (induction es arbitrary: sys seen rule: rev_induct)
  case Nil
  then show ?case by (auto simp: reaches_def inv_loads_def system_init_def)
next
  case (snoc e es)
  from snoc.prems obtain sys0 seen0 where r: "reaches es sys0 seen0" and s: "step e sys0 = Some sys"
    by (rule reaches_snoc)
  from inv_loads_step [OF r snoc.IH [OF r] s] show ?case .
qed

section \<open>What every schedule guarantees\<close>

text \<open>
  C2. In every state that a schedule reaches, unless a handler is inside its locked
  section (between the two appends or the two evictions of one request), the latencies and
  the hop counts have the same length, at most 1000, and taken pairwise they are the last
  1000 observations in the order of arrival: the entries at one index come from one
  observation. While a stats request is inside its read section no handler is inside its
  locked section, so a reader never sees the store in between. Once a stats request has
  made its two copies they have the same length and, taken pairwise, are the last 1000
  observations as of some moment. No handler panics.
\<close>

theorem store_and_snapshots_aligned:
  assumes "reaches es sys seen"
  shows "((\<forall>k < length (gs sys). \<not> in_cs (gs sys ! k)) \<longrightarrow>
            length (latencies (sh sys)) = length (proxyHops (sh sys))
            \<and> length (latencies (sh sys)) \<le> 1000
            \<and> zip (latencies (sh sys)) (proxyHops (sh sys)) = lastN 1000 seen)
     \<and> (\<forall>k < length (gs sys). reading (gs sys ! k) \<longrightarrow>
            (\<forall>j < length (gs sys). \<not> in_cs (gs sys ! j)))
     \<and> (\<forall>k < length (gs sys). \<forall>pc i l. gs sys ! k = StatsG pc i l \<longrightarrow>
            pc \<notin> {S_RLock, S_make_latenciesCopy, S_make_proxyHopsCopy, S_copy_latencies,
                   S_copy_proxyHops} \<longrightarrow>
            length (latenciesCopy l) = length (proxyHopsCopy l)
            \<and> length (latenciesCopy l) \<le> 1000
            \<and> (\<exists>m \<le> length seen.
                  zip (latenciesCopy l) (proxyHopsCopy l) = lastN 1000 (take m seen)))
     \<and> (\<forall>k < length (gs sys). \<forall>e hops lat. gs sys ! k \<noteq> HandlerG (H_panic e) hops lat)"
proof -
  note inv = reaches_inv [OF assms]
  have base: "\<not> mu_w (sh sys) \<longrightarrow> store_is 1000 1000 seen (sh sys)"
    and rel: "\<And>k. k < length (gs sys) \<Longrightarrow> g_rel (gs sys ! k) seen (sh sys)"
    using inv(2) unfolding inv_store_def by blast+
  have held: "\<And>j. j < length (gs sys) \<Longrightarrow> in_cs (gs sys ! j) \<Longrightarrow> mu_w (sh sys)"
    using inv(1) unfolding inv_mu_def by blast
  have rd: "\<And>k. k < length (gs sys) \<Longrightarrow> reading (gs sys ! k) \<Longrightarrow> \<not> mu_w (sh sys)"
  proof
    fix k assume k: "k < length (gs sys)" "reading (gs sys ! k)" "mu_w (sh sys)"
    from filter_pos [of k "gs sys" reading] k have "0 < mu_r (sh sys)"
      using inv(1) by (simp add: inv_mu_def)
    with k(3) inv(1) show False by (simp add: inv_mu_def)
  qed
  have c1: "(\<forall>k < length (gs sys). \<not> in_cs (gs sys ! k)) \<longrightarrow>
            length (latencies (sh sys)) = length (proxyHops (sh sys))
            \<and> length (latencies (sh sys)) \<le> 1000
            \<and> zip (latencies (sh sys)) (proxyHops (sh sys)) = lastN 1000 seen"
  proof
    assume "\<forall>k < length (gs sys). \<not> in_cs (gs sys ! k)"
    then have "\<not> mu_w (sh sys)"
      using reaches_inv_held [OF assms] unfolding inv_held_def by blast
    with base show "length (latencies (sh sys)) = length (proxyHops (sh sys))
            \<and> length (latencies (sh sys)) \<le> 1000
            \<and> zip (latencies (sh sys)) (proxyHops (sh sys)) = lastN 1000 seen"
      by (auto simp: store_is_def length_lastN zip_lastN)
  qed
  have c2: "\<forall>k < length (gs sys). reading (gs sys ! k) \<longrightarrow>
            (\<forall>j < length (gs sys). \<not> in_cs (gs sys ! j))"
    using rd held by blast
  have c3: "\<forall>k < length (gs sys). \<forall>pc i l. gs sys ! k = StatsG pc i l \<longrightarrow>
            pc \<notin> {S_RLock, S_make_latenciesCopy, S_make_proxyHopsCopy, S_copy_latencies,
                   S_copy_proxyHops} \<longrightarrow>
            length (latenciesCopy l) = length (proxyHopsCopy l)
            \<and> length (latenciesCopy l) \<le> 1000
            \<and> (\<exists>m \<le> length seen.
                  zip (latenciesCopy l) (proxyHopsCopy l) = lastN 1000 (take m seen))"
  proof (intro allI impI)
    fix k pc i l
    assume k: "k < length (gs sys)" and g: "gs sys ! k = StatsG pc i l"
      and pc: "pc \<notin> {S_RLock, S_make_latenciesCopy, S_make_proxyHopsCopy, S_copy_latencies,
                   S_copy_proxyHops}"
    from rel [OF k] g have r: "rd_rel pc l seen (sh sys)" by simp
    from rd [OF k] g have "reading (StatsG pc i l) \<longrightarrow> \<not> mu_w (sh sys)" by simp
    from snapshot_of_aligned [OF rd_rel_copied [OF r base this pc]]
    show "length (latenciesCopy l) = length (proxyHopsCopy l)
            \<and> length (latenciesCopy l) \<le> 1000
            \<and> (\<exists>m \<le> length seen.
                  zip (latenciesCopy l) (proxyHopsCopy l) = lastN 1000 (take m seen))" .
  qed
  have c4: "\<forall>k < length (gs sys). \<forall>e hops lat. gs sys ! k \<noteq> HandlerG (H_panic e) hops lat"
  proof (intro allI impI notI)
    fix k e hops lat assume "k < length (gs sys)" "gs sys ! k = HandlerG (H_panic e) hops lat"
    with rel [of k] show False by simp
  qed
  from c1 c2 c3 c4 show ?thesis by blast
qed

theorem store_and_snapshots_aligned_witness:
  "\<exists>sys l. reaches
       [Request Map.empty 20, Run 0, Run 0, Run 0, Run 0, Run 0, Run 0, Run 0,
        StatsRequest plain_stats, Run 1, Run 1, Run 1, Run 1, Run 1, Run 1]
       sys [(20, 0)]
     \<and> gs sys = [HandlerG H_done 0 20, StatsG S_requests_Load plain_stats l]
     \<and> latenciesCopy l = [20] \<and> proxyHopsCopy l = [0]
     \<and> length (latenciesCopy l) = length (proxyHopsCopy l)
     \<and> latencies (sh sys) = [20] \<and> proxyHops (sh sys) = [0]
     \<and> zip (latencies (sh sys)) (proxyHops (sh sys)) = lastN 1000 [(20, 0)]"
proof -
  let ?es = "[Request Map.empty 20, Run 0, Run 0, Run 0, Run 0, Run 0, Run 0, Run 0,
        StatsRequest plain_stats, Run 1, Run 1, Run 1, Run 1, Run 1, Run 1]"
  have "\<exists>sys l. reaches ?es sys [(20, 0)]
     \<and> latencies (sh sys) = [20] \<and> proxyHops (sh sys) = [0]
     \<and> gs sys = [HandlerG H_done 0 20, StatsG S_requests_Load plain_stats l]
     \<and> latenciesCopy l = [20] \<and> proxyHopsCopy l = [0]"
    by (simp add: run_eval plain_stats_def quiet_host_def)
  then obtain sys l where r: "reaches ?es sys [(20, 0)]"
    and f: "latencies (sh sys) = [20]" "proxyHops (sh sys) = [0]"
      "gs sys = [HandlerG H_done 0 20, StatsG S_requests_Load plain_stats l]"
      "latenciesCopy l = [20]" "proxyHopsCopy l = [0]"
    by blast
  have idle: "\<forall>k < length (gs sys). \<not> in_cs (gs sys ! k)"
    by (simp add: f(3) less_Suc_eq)
  have k: "1 < length (gs sys)" "gs sys ! 1 = StatsG S_requests_Load plain_stats l"
    by (simp_all add: f(3))
  note T = store_and_snapshots_aligned [OF r]
  from T [THEN conjunct1] idle
  have a: "zip (latencies (sh sys)) (proxyHops (sh sys)) = lastN 1000 [(20, 0)]"
    by blast
  from T [THEN conjunct2, THEN conjunct2, THEN conjunct1, rule_format, OF k]
  have b: "length (latenciesCopy l) = length (proxyHopsCopy l)"
    by simp
  from r f a b show ?thesis by blast
qed

text \<open>
  C9. In every state that a schedule reaches with fewer than \<open>2^63\<close> requests,
  \<open>requestsViaProxy\<close> is at most \<open>requests\<close> and neither is negative. The three counters
  start at zero. A step leaves a counter as it is or adds one to it (and never touches
  \<open>errors\<close>), so no step lowers or resets a counter.
\<close>

theorem counters_only_grow:
  assumes "reaches es sys seen" "length (gs sys) < 2 ^ 63"
  shows "sint (requestsViaProxy (sh sys)) \<le> sint (requests (sh sys))
     \<and> 0 \<le> sint (requestsViaProxy (sh sys)) \<and> 0 \<le> sint (requests (sh sys))
     \<and> errors (sh sys) = 0
     \<and> requests (sh system_init) = 0 \<and> errors (sh system_init) = 0
     \<and> requestsViaProxy (sh system_init) = 0
     \<and> (\<forall>e sys'. step e sys = Some sys' \<longrightarrow> length (gs sys') < 2 ^ 63 \<longrightarrow>
           (requests (sh sys') = requests (sh sys) \<or> requests (sh sys') = requests (sh sys) + 1)
           \<and> (requestsViaProxy (sh sys') = requestsViaProxy (sh sys)
               \<or> requestsViaProxy (sh sys') = requestsViaProxy (sh sys) + 1)
           \<and> errors (sh sys') = errors (sh sys)
           \<and> sint (requests (sh sys)) \<le> sint (requests (sh sys'))
           \<and> sint (requestsViaProxy (sh sys)) \<le> sint (requestsViaProxy (sh sys')))"
proof -
  note inv = reaches_inv(3) [OF assms(1)]
  note v = counters_values [OF inv assms(2)]
  have "length (filter past_requestsViaProxy_Add (gs sys)) \<le> length (filter past_requests_Add (gs sys))"
  proof -
    have "filter past_requestsViaProxy_Add (gs sys)
        = filter past_requestsViaProxy_Add (filter past_requests_Add (gs sys))"
      by (simp add: conj_commute cong: conj_cong) (metis past_via_imp_past_req)
    then show ?thesis by (metis length_filter_le)
  qed
  then have c1: "sint (requestsViaProxy (sh sys)) \<le> sint (requests (sh sys))"
    "0 \<le> sint (requestsViaProxy (sh sys))" "0 \<le> sint (requests (sh sys))"
    using v by simp_all
  have c2: "errors (sh sys) = 0" using inv by (simp add: inv_counters_def)
  have c3: "requests (sh system_init) = 0 \<and> errors (sh system_init) = 0
     \<and> requestsViaProxy (sh system_init) = 0"
    by (simp add: system_init_def main_init_def)
  have c4: "\<forall>e sys'. step e sys = Some sys' \<longrightarrow> length (gs sys') < 2 ^ 63 \<longrightarrow>
           (requests (sh sys') = requests (sh sys) \<or> requests (sh sys') = requests (sh sys) + 1)
           \<and> (requestsViaProxy (sh sys') = requestsViaProxy (sh sys)
               \<or> requestsViaProxy (sh sys') = requestsViaProxy (sh sys) + 1)
           \<and> errors (sh sys') = errors (sh sys)
           \<and> sint (requests (sh sys)) \<le> sint (requests (sh sys'))
           \<and> sint (requestsViaProxy (sh sys)) \<le> sint (requestsViaProxy (sh sys'))"
  proof (intro allI impI)
    fix e sys' assume s: "step e sys = Some sys'" and b: "length (gs sys') < 2 ^ 63"
    note v' = counters_values [OF inv_counters_step [OF inv s] b]
    from step_counters [OF s] show "(requests (sh sys') = requests (sh sys) \<or> requests (sh sys') = requests (sh sys) + 1)
           \<and> (requestsViaProxy (sh sys') = requestsViaProxy (sh sys)
               \<or> requestsViaProxy (sh sys') = requestsViaProxy (sh sys) + 1)
           \<and> errors (sh sys') = errors (sh sys)
           \<and> sint (requests (sh sys)) \<le> sint (requests (sh sys'))
           \<and> sint (requestsViaProxy (sh sys)) \<le> sint (requestsViaProxy (sh sys'))"
      unfolding v v' by simp
  qed
  from c1 c2 c3 c4 show ?thesis by blast
qed

theorem counters_only_grow_witness:
  "\<exists>sys. reaches
       [Request (Set_hdr Map.empty ''Via'' ''proxyA'') 20, Request Map.empty 21,
        Run 0, Run 1, Run 0]
       sys []
     \<and> length (gs sys) < 2 ^ 63
     \<and> requests (sh sys) = 2 \<and> requestsViaProxy (sh sys) = 1 \<and> errors (sh sys) = 0
     \<and> sint (requestsViaProxy (sh sys)) \<le> sint (requests (sh sys))"
proof -
  let ?es = "[Request (Set_hdr Map.empty ''Via'' ''proxyA'') 20, Request Map.empty 21,
        Run 0, Run 1, Run 0]"
  have h: "countTotalHops (Set_hdr Map.empty ''Via'' ''proxyA'') = 1"
    by (simp add: countTotalHops_def countProxyHops_def countServiceMeshHops_def Get_def
        Set_hdr_def canon_keys)
  have "\<exists>sys. reaches ?es sys [] \<and> length (gs sys) = 2
     \<and> requests (sh sys) = 2 \<and> requestsViaProxy (sh sys) = 1 \<and> errors (sh sys) = 0"
    by (simp add: run_eval h)
  then obtain sys where r: "reaches ?es sys []" and f: "length (gs sys) = 2"
      "requests (sh sys) = 2" "requestsViaProxy (sh sys) = 1" "errors (sh sys) = 0"
    by blast
  have b: "length (gs sys) < 2 ^ 63" using f(1) by simp
  from counters_only_grow [OF r b]
  have "sint (requestsViaProxy (sh sys)) \<le> sint (requests (sh sys))" by blast
  with r b f show ?thesis by blast
qed

text \<open>
  C10. No step changes \<open>errors\<close>, so it is zero in every state that a schedule reaches,
  and every statistics record that a stats request produces, whether its snapshot is empty
  or not, has \<open>Errors = 0\<close> and \<open>SuccessRate = 100\<close>.
\<close>

theorem errors_never_counted:
  assumes "reaches es sys seen"
  shows "errors (sh sys) = 0
     \<and> (\<forall>e sys'. step e sys = Some sys' \<longrightarrow> errors (sh sys') = errors (sh sys))
     \<and> (\<forall>k < length (gs sys). \<forall>i l. gs sys ! k = StatsG S_done i l \<longrightarrow>
           (\<exists>st. response l = Some (Inr st) \<and> Errors st = 0 \<and> SuccessRate st = 100))"
proof -
  note inv = reaches_inv(3) [OF assms]
  have c1: "errors (sh sys) = 0" using inv by (simp add: inv_counters_def)
  have c2: "\<forall>e sys'. step e sys = Some sys' \<longrightarrow> errors (sh sys') = errors (sh sys)"
    using step_counters by blast
  have c3: "\<forall>k < length (gs sys). \<forall>i l. gs sys ! k = StatsG S_done i l \<longrightarrow>
           (\<exists>st. response l = Some (Inr st) \<and> Errors st = 0 \<and> SuccessRate st = 100)"
  proof (intro allI impI)
    fix k i l assume k: "k < length (gs sys)" and g: "gs sys ! k = StatsG S_done i l"
    from stats_done_response [OF inv k g] obtain st where
      st: "response l = Some (Inr st)"
        "statsHandler_result (latenciesCopy l) (proxyHopsCopy l) (totalRequests l) 0
          (totalViaProxy l) (req i) (istioDetected l) (env i) = Inr st"
        "SuccessRate st = 100"
      by blast
    from statsHandler_result_facts [OF st(2)] have "Errors st = 0" by blast
    with st show "\<exists>st. response l = Some (Inr st) \<and> Errors st = 0 \<and> SuccessRate st = 100"
      by blast
  qed
  from c1 c2 c3 show ?thesis by blast
qed

theorem errors_never_counted_witness:
  "\<exists>sys l st. reaches
       [Request Map.empty 20, Run 0, Run 0, Run 0, Run 0, Run 0, Run 0, Run 0,
        StatsRequest plain_stats, Run 1, Run 1, Run 1, Run 1, Run 1, Run 1, Run 1, Run 1,
        Run 1, Run 1, Run 1, Run 1, Run 1]
       sys [(20, 0)]
     \<and> errors (sh sys) = 0 \<and> requests (sh sys) = 1
     \<and> gs sys ! 1 = StatsG S_done plain_stats l \<and> latenciesCopy l = [20]
     \<and> response l = Some (Inr st) \<and> Requests st = 1 \<and> Errors st = 0 \<and> SuccessRate st = 100"
proof -
  let ?es = "[Request Map.empty 20, Run 0, Run 0, Run 0, Run 0, Run 0, Run 0, Run 0,
        StatsRequest plain_stats, Run 1, Run 1, Run 1, Run 1, Run 1, Run 1, Run 1, Run 1,
        Run 1, Run 1, Run 1, Run 1, Run 1]"
  have "\<exists>sys l. reaches ?es sys [(20, 0)] \<and> errors (sh sys) = 0 \<and> requests (sh sys) = 1
     \<and> length (gs sys) = 2 \<and> gs sys ! 1 = StatsG S_done plain_stats l
     \<and> latenciesCopy l = [20] \<and> totalRequests l = 1"
    by (simp add: stats_run_eval quiet_host_def)
  then obtain sys l where r: "reaches ?es sys [(20, 0)]"
    and f: "errors (sh sys) = 0" "requests (sh sys) = 1" "length (gs sys) = 2"
      "gs sys ! 1 = StatsG S_done plain_stats l" "latenciesCopy l = [20]" "totalRequests l = 1"
    by blast
  from errors_never_counted [OF r, THEN conjunct2, THEN conjunct2, rule_format, of 1 plain_stats l] f
  obtain st where st: "response l = Some (Inr st)" "Errors st = 0" "SuccessRate st = 100"
    by auto
  from stats_done_response [OF reaches_inv(3) [OF r], of 1 plain_stats l] f st(1)
  have "statsHandler_result (latenciesCopy l) (proxyHopsCopy l) (totalRequests l) 0
          (totalViaProxy l) (req plain_stats) (istioDetected l) (env plain_stats) = Inr st"
    by auto
  from statsHandler_result_facts [OF this] f have "Requests st = 1" by simp
  with r f st show ?thesis by blast
qed

text \<open>
  C5. A stats request whose snapshot is empty answers with a record (it does not panic)
  in which \<open>SuccessRate\<close> is 100, \<open>Requests\<close> is the value that its load read from the
  counter \<open>requests\<close> (the value the counter held in the state where the request ran its
  load, which is the number of handlers that had added to the counter by then),
  \<open>RequestsPerSecond\<close> is \<^verbatim>\<open>round\<close> of the quotient of that value and the uptime, and
  the seven latency fields are zero. \<^verbatim>\<open>percentile\<close> on the empty snapshot would have
  panicked, so it was not called.
\<close>

theorem empty_window_stats:
  assumes "reaches es sys seen" "k < length (gs sys)" "gs sys ! k = StatsG S_done i l"
    "latenciesCopy l = []"
  shows "\<exists>st. response l = Some (Inr st) \<and> SuccessRate st = 100
     \<and> RequestsPerSecond st
         = round_go (fdiv (float64_of_int (sint (totalRequests l))) (uptime (env i)))
     \<and> 0 < uptime (env i)
     \<and> Requests st = totalRequests l \<and> RequestsViaProxy st = totalViaProxy l
     \<and> (\<exists>n sys1 seen1 l1. n < length es \<and> es ! n = Run k \<and> reaches (take n es) sys1 seen1
           \<and> k < length (gs sys1) \<and> gs sys1 ! k = StatsG S_requests_Load i l1
           \<and> totalRequests l = requests (sh sys1)
           \<and> requests (sh sys1) = of_nat (length (filter past_requests_Add (gs sys1))))
     \<and> AvgLatency st = 0 \<and> P50Latency st = 0 \<and> P95Latency st = 0 \<and> P99Latency st = 0
     \<and> P999Latency st = 0 \<and> MinLatency st = 0 \<and> MaxLatency st = 0
     \<and> (\<forall>p. fst (percentile [latenciesCopy l] 0 p) = Inl IndexOutOfRange)"
proof -
  note inv = reaches_inv(3) [OF assms(1)]
  from stats_done_response [OF inv assms(2,3)] obtain st where
    st: "response l = Some (Inr st)"
      "statsHandler_result (latenciesCopy l) (proxyHopsCopy l) (totalRequests l) 0
          (totalViaProxy l) (req i) (istioDetected l) (env i) = Inr st"
      "0 < uptime (env i)" "SuccessRate st = 100"
    by blast
  note f = statsHandler_result_facts [OF st(2)]
  have "load_of es k i (totalRequests l)"
    using reaches_inv_loads [OF assms(1)] assms(2,3) unfolding inv_loads_def
    by (simp add: loaded_def)
  then obtain n sys1 seen1 l1 where n: "n < length es" "es ! n = Run k"
    "reaches (take n es) sys1 seen1" "k < length (gs sys1)"
    "gs sys1 ! k = StatsG S_requests_Load i l1" "totalRequests l = requests (sh sys1)"
    unfolding load_of_def by blast
  have "requests (sh sys1) = of_nat (length (filter past_requests_Add (gs sys1)))"
    using reaches_inv(3) [OF n(3)] by (simp add: inv_counters_def)
  with n have ld: "\<exists>n sys1 seen1 l1. n < length es \<and> es ! n = Run k \<and> reaches (take n es) sys1 seen1
           \<and> k < length (gs sys1) \<and> gs sys1 ! k = StatsG S_requests_Load i l1
           \<and> totalRequests l = requests (sh sys1)
           \<and> requests (sh sys1) = of_nat (length (filter past_requests_Add (gs sys1)))"
    by blast
  have pe: "\<forall>p. fst (percentile [latenciesCopy l] 0 p) = Inl IndexOutOfRange"
    using assms(4) percentile_empty by simp
  from f assms(4) have z: "Requests st = totalRequests l" "RequestsViaProxy st = totalViaProxy l"
    "RequestsPerSecond st
       = round_go (fdiv (float64_of_int (sint (totalRequests l))) (uptime (env i)))"
    "AvgLatency st = 0" "P50Latency st = 0" "P95Latency st = 0" "P99Latency st = 0"
    "P999Latency st = 0" "MinLatency st = 0" "MaxLatency st = 0"
    by blast+
  from st(1,3,4) z ld pe show ?thesis by blast
qed

theorem empty_window_stats_witness:
  "\<exists>sys l st. reaches
       [Request Map.empty 20, Run 0, StatsRequest plain_stats, Run 1, Run 1, Run 1, Run 1,
        Run 1, Run 1, Run 1, Run 1, Run 1, Run 1, Run 1, Run 1, Run 1]
       sys []
     \<and> gs sys ! 1 = StatsG S_done plain_stats l \<and> latenciesCopy l = []
     \<and> requests (sh sys) = 1 \<and> totalRequests l = 1
     \<and> dialled l = [''127.0.0.1:15000'']
     \<and> response l = Some (Inr st) \<and> Requests st = 1 \<and> SuccessRate st = 100
     \<and> RequestsPerSecond st = 1 / 2
     \<and> AvgLatency st = 0 \<and> P50Latency st = 0 \<and> P999Latency st = 0 \<and> MaxLatency st = 0"
proof -
  let ?es = "[Request Map.empty 20, Run 0, StatsRequest plain_stats, Run 1, Run 1, Run 1, Run 1,
        Run 1, Run 1, Run 1, Run 1, Run 1, Run 1, Run 1, Run 1, Run 1]"
  have "\<exists>sys l. reaches ?es sys [] \<and> length (gs sys) = 2
     \<and> gs sys ! 1 = StatsG S_done plain_stats l \<and> latenciesCopy l = [] \<and> totalRequests l = 1
     \<and> requests (sh sys) = 1 \<and> dialled l = [''127.0.0.1:15000'']"
    by (simp add: stats_run_eval quiet_host_def probeEnvoyAdmin_def)
  then obtain sys l where r: "reaches ?es sys []"
    and f: "length (gs sys) = 2" "gs sys ! 1 = StatsG S_done plain_stats l" "latenciesCopy l = []"
      "totalRequests l = 1" "requests (sh sys) = 1" "dialled l = [''127.0.0.1:15000'']"
    by blast
  have k: "1 < length (gs sys)" using f(1) by simp
  from empty_window_stats [OF r k f(2,3)] obtain st where
    st: "response l = Some (Inr st)" "SuccessRate st = 100"
      "RequestsPerSecond st
         = round_go (fdiv (float64_of_int (sint (totalRequests l))) (uptime (env plain_stats)))"
      "Requests st = totalRequests l"
      "AvgLatency st = 0" "P50Latency st = 0" "P999Latency st = 0" "MaxLatency st = 0"
    by blast
  have e: "round_go (fdiv (float64_of_int 1) 2) = 1 / 2" by code_simp
  from st(3) f(4) have "RequestsPerSecond st = 1 / 2"
    by (simp add: plain_stats_def quiet_host_def e)
  with r f st show ?thesis by auto
qed

end
